theory Spec2Isabelle
  imports Main "HOL-Library.Multiset" "HOL-Library.Sublist" "HOL-Library.AList"
begin

section \<open>Go library functions called by main.go\<close>

text \<open>
  Go strings are byte sequences; they are modelled as \<open>string\<close> (a list of bytes).
  Go's \<open>int\<close> is modelled as \<open>int\<close>: every count of the program is bounded by the
  number of lines of the scanned text, whose length is itself a Go \<open>int\<close>, so no
  addition of the program can wrap around.
\<close>

subsection \<open>unicode.IsSpace on UTF-8 bytes\<close>

text \<open>
  \<open>strings.Fields\<close> and \<open>strings.TrimSpace\<close> split and trim at the runes of
  \<open>unicode.IsSpace\<close>: the six ASCII white-space bytes, U+0085, U+00A0, U+1680,
  U+2000 to U+200A, U+2028, U+2029, U+202F, U+205F and U+3000. The list holds their
  UTF-8 encodings. No encoding starts with a continuation byte (0x80 to 0xBF), and Go's
  decoder starts a rune at every byte that is not a continuation byte of a valid
  rune, so a white-space rune stands at a byte position exactly when one of these
  encodings is a prefix of the text there.
\<close>

definition spaceRunes :: "string list" where
  "spaceRunes =
    [[CHR 0x09], [CHR 0x0A], [CHR 0x0B], [CHR 0x0C], [CHR 0x0D], [CHR 0x20],
     [CHR 0xC2, CHR 0x85], [CHR 0xC2, CHR 0xA0],
     [CHR 0xE1, CHR 0x9A, CHR 0x80],
     [CHR 0xE2, CHR 0x80, CHR 0x80], [CHR 0xE2, CHR 0x80, CHR 0x81],
     [CHR 0xE2, CHR 0x80, CHR 0x82], [CHR 0xE2, CHR 0x80, CHR 0x83],
     [CHR 0xE2, CHR 0x80, CHR 0x84], [CHR 0xE2, CHR 0x80, CHR 0x85],
     [CHR 0xE2, CHR 0x80, CHR 0x86], [CHR 0xE2, CHR 0x80, CHR 0x87],
     [CHR 0xE2, CHR 0x80, CHR 0x88], [CHR 0xE2, CHR 0x80, CHR 0x89],
     [CHR 0xE2, CHR 0x80, CHR 0x8A],
     [CHR 0xE2, CHR 0x80, CHR 0xA8], [CHR 0xE2, CHR 0x80, CHR 0xA9],
     [CHR 0xE2, CHR 0x80, CHR 0xAF], [CHR 0xE2, CHR 0x81, CHR 0x9F],
     [CHR 0xE3, CHR 0x80, CHR 0x80]]"

text \<open>The number of bytes of the white-space rune a text starts with, 0 when it starts with none.\<close>

definition spaceWidth :: "string \<Rightarrow> nat" where
  "spaceWidth s = (case find (\<lambda>r. prefix r s) spaceRunes of None \<Rightarrow> 0 | Some r \<Rightarrow> length r)"

subsection \<open>Package strings\<close>

text \<open>
  \<open>strings.Fields\<close>: the maximal runs of non-space runes. \<open>skip\<close> counts the bytes
  still to pass of a white-space rune of several bytes, \<open>cur\<close> is the field being read.
\<close>

fun FieldsFrom :: "nat \<Rightarrow> string \<Rightarrow> string \<Rightarrow> string list" where
  "FieldsFrom skip cur [] = (if cur = [] then [] else [cur])"
| "FieldsFrom skip cur (c # cs) =
    (if 0 < skip then FieldsFrom (skip - 1) cur cs
     else if 0 < spaceWidth (c # cs)
       then (if cur = [] then [] else [cur]) @ FieldsFrom (spaceWidth (c # cs) - 1) [] cs
       else FieldsFrom 0 (cur @ [c]) cs)"

definition Fields :: "string \<Rightarrow> string list" where
  "Fields s = FieldsFrom 0 [] s"

text \<open>\<open>strings.Index\<close>: the byte index of the first occurrence, -1 when there is none.\<close>

fun Index :: "string \<Rightarrow> string \<Rightarrow> int" where
  "Index [] substr = (if substr = [] then 0 else - 1)"
| "Index (c # cs) substr =
    (if prefix substr (c # cs) then 0
     else (let r = Index cs substr in if r < 0 then - 1 else r + 1))"

definition Contains :: "string \<Rightarrow> string \<Rightarrow> bool" where
  "Contains s substr = (0 \<le> Index s substr)"

text \<open>
  \<open>strings.Split\<close> for a non-empty separator (main.go splits at \<open>=>\<close> and at \<open>/\<close>):
  the pieces between the leftmost non-overlapping occurrences of the separator.
\<close>

fun SplitFrom :: "string \<Rightarrow> nat \<Rightarrow> string \<Rightarrow> string \<Rightarrow> string list" where
  "SplitFrom sep skip cur [] = [cur]"
| "SplitFrom sep skip cur (c # cs) =
    (if 0 < skip then SplitFrom sep (skip - 1) cur cs
     else if prefix sep (c # cs) then cur # SplitFrom sep (length sep - 1) [] cs
     else SplitFrom sep 0 (cur @ [c]) cs)"

definition Split :: "string \<Rightarrow> string \<Rightarrow> string list" where
  "Split s sep = SplitFrom sep 0 [] s"

text \<open>Leading runes of a set of encodings, dropped one after the other.\<close>

fun dropRunes :: "string list \<Rightarrow> nat \<Rightarrow> string \<Rightarrow> string" where
  "dropRunes rs skip [] = []"
| "dropRunes rs skip (c # cs) =
    (if 0 < skip then dropRunes rs (skip - 1) cs
     else (case find (\<lambda>r. prefix r (c # cs)) rs of
             Some r \<Rightarrow> dropRunes rs (length r - 1) cs
           | None \<Rightarrow> c # cs))"

text \<open>
  \<open>strings.TrimSpace\<close>: leading white-space runes are dropped, then trailing ones
  (read backwards, so on the reversed text with the reversed encodings).
\<close>

definition TrimSpace :: "string \<Rightarrow> string" where
  "TrimSpace s = rev (dropRunes (map rev spaceRunes) 0 (rev (dropRunes spaceRunes 0 s)))"

text \<open>
  \<open>strings.TrimLeft\<close> and \<open>strings.Trim\<close> with an ASCII cutset work byte by byte.
\<close>

definition TrimLeft :: "string \<Rightarrow> string \<Rightarrow> string" where
  "TrimLeft s cutset = dropWhile (\<lambda>c. c \<in> set cutset) s"

definition TrimRight :: "string \<Rightarrow> string \<Rightarrow> string" where
  "TrimRight s cutset = rev (dropWhile (\<lambda>c. c \<in> set cutset) (rev s))"

definition Trim :: "string \<Rightarrow> string \<Rightarrow> string" where
  "Trim s cutset = TrimLeft (TrimRight s cutset) cutset"

definition TrimPrefix :: "string \<Rightarrow> string \<Rightarrow> string" where
  "TrimPrefix s pre = (if prefix pre s then drop (length pre) s else s)"

definition TrimSuffix :: "string \<Rightarrow> string \<Rightarrow> string" where
  "TrimSuffix s suf = (if suffix suf s then take (length s - length suf) s else s)"

subsection \<open>Package path/filepath\<close>

text \<open>
  The release builds the program for linux, darwin and windows; \<open>filepath.Separator\<close>
  is a backslash on windows and a slash elsewhere, and \<open>filepath.ToSlash\<close> replaces
  the separator by a slash.
\<close>

datatype goos = Linux | Darwin | Windows

definition Separator :: "goos \<Rightarrow> char" where
  "Separator os = (case os of Windows \<Rightarrow> CHR 0x5C | _ \<Rightarrow> CHR ''/'')"

definition ToSlash :: "goos \<Rightarrow> string \<Rightarrow> string" where
  "ToSlash os path =
    (if Separator os = CHR ''/'' then path
     else map (\<lambda>c. if c = Separator os then CHR ''/'' else c) path)"

subsection \<open>bufio.Scanner with the split function ScanLines\<close>

text \<open>
  The scanner returns the text between line feeds, without a trailing carriage return;
  a last line without line feed is returned when it is not empty. Its buffer grows to
  \<open>MaxScanTokenSize\<close> bytes: at a line that does not fit with its line feed the
  scanner stops with an error, which \<open>analyzeRepo\<close> logs before it goes on with the
  lines read so far.
\<close>

definition MaxScanTokenSize :: nat where
  "MaxScanTokenSize = 65536"

fun rawLines :: "string \<Rightarrow> string \<Rightarrow> string list" where
  "rawLines cur [] = (if cur = [] then [] else [cur])"
| "rawLines cur (c # cs) =
    (if c = CHR 0x0A then cur # rawLines [] cs else rawLines (cur @ [c]) cs)"

definition dropCR :: "string \<Rightarrow> string" where
  "dropCR l = (if l \<noteq> [] \<and> last l = CHR 0x0D then butlast l else l)"

definition scanLines :: "string \<Rightarrow> string list" where
  "scanLines output =
    map dropCR (takeWhile (\<lambda>l. length l < MaxScanTokenSize) (rawLines [] output))"

section \<open>The line parser (analyzeRepo, data processing)\<close>

text \<open>
  The destination path of a rename line (the two brace forms of main.go), empty when
  neither form matches. The slices are in range by the tests that guard them.
\<close>

definition renameDestination :: "string \<Rightarrow> string" where
  "renameDestination line =
    (let leftCurly = Index line ''{'';
         rightCurly = Index line ''}'';
         arrow = Index line ''=>''
     in if 0 \<le> leftCurly \<and> leftCurly < rightCurly \<and> leftCurly < arrow \<and> arrow < rightCurly
        then (let pre = take (nat leftCurly) line;
                  inside = take (nat rightCurly - (nat leftCurly + 1)) (drop (nat leftCurly + 1) line);
                  insideParts = Split inside ''=>''
              in if length insideParts = 2 then TrimSpace (pre @ insideParts ! 1) else [])
        else if leftCurly = 0 \<and> 0 < arrow
        then (let inside = drop 1 line;
                  arrow' = Index inside ''=>''
              in if 0 < arrow'
                 then TrimSpace (TrimSuffix (TrimPrefix (drop (nat arrow' + 2) inside) '' '') ''}'')
                 else [])
        else [])"

text \<open>The three warnings of the parsing loop, each with the line it is logged for.\<close>

datatype warning = RenameNotParsed string | NumericFieldsMissing string | MalformedLine string

text \<open>
  One non-empty line: the added and deleted fields and the file path, or the warning
  with which the loop goes on to the next line.
\<close>

definition parseLine :: "string \<Rightarrow> warning + (string \<times> string \<times> string)" where
  "parseLine line =
    (let parts = Fields line
     in if length parts < 3
        then (if Contains line ''=>''
              then (let filePath = renameDestination line
                    in if filePath = [] then Inl (RenameNotParsed line)
                       else if 2 \<le> length parts then Inr (parts ! 0, parts ! 1, filePath)
                       else Inl (NumericFieldsMissing line))
              else Inl (MalformedLine line))
        else Inr (parts ! 0, parts ! 1, parts ! 2))"

definition changeAmountOf :: "string \<Rightarrow> string \<Rightarrow> int" where
  "changeAmountOf addedStr deletedStr = (if addedStr = ''-'' \<or> deletedStr = ''-'' then 1 else 1)"

definition normalizePath :: "goos \<Rightarrow> string \<Rightarrow> string" where
  "normalizePath os filePath = TrimLeft (ToSlash os (TrimSpace filePath)) ''{ ''"

text \<open>
  A Go map is an association list with distinct keys, a new key appended at the end;
  reading a key that is absent gives the zero value.
\<close>

definition mapGet :: "(string \<times> int) list \<Rightarrow> string \<Rightarrow> int" where
  "mapGet m k = (case map_of m k of None \<Rightarrow> 0 | Some v \<Rightarrow> v)"

record scanState =
  fileChangeCounts :: "(string \<times> int) list"
  processedLines :: int
  logged :: "warning list"

definition initState :: scanState where
  "initState = \<lparr>fileChangeCounts = [], processedLines = 0, logged = []\<rparr>"

text \<open>The body of the scanning loop.\<close>

definition processLine :: "goos \<Rightarrow> scanState \<Rightarrow> string \<Rightarrow> scanState" where
  "processLine os st line =
    (if line = [] then st
     else (let st1 = st\<lparr>processedLines := processedLines st + 1\<rparr>
           in case parseLine line of
                Inl w \<Rightarrow> st1\<lparr>logged := logged st1 @ [w]\<rparr>
              | Inr (addedStr, deletedStr, filePath) \<Rightarrow>
                  (let changeAmount = changeAmountOf addedStr deletedStr;
                       normalizedPath = normalizePath os filePath
                   in if normalizedPath \<noteq> []
                      then st1\<lparr>fileChangeCounts :=
                             AList.update normalizedPath
                               (mapGet (fileChangeCounts st1) normalizedPath + changeAmount)
                               (fileChangeCounts st1)\<rparr>
                      else st1)))"

definition processLines :: "goos \<Rightarrow> scanState \<Rightarrow> string list \<Rightarrow> scanState" where
  "processLines os st ls = foldl (processLine os) st ls"

text \<open>
  The record an accepted line adds to the map: its normalized path and its weight.
  \<open>None\<close> for a line that the loop passes over.
\<close>

definition lineRecord :: "goos \<Rightarrow> string \<Rightarrow> (string \<times> int) option" where
  "lineRecord os line =
    (if line = [] then None
     else (case parseLine line of
             Inl w \<Rightarrow> None
           | Inr (addedStr, deletedStr, filePath) \<Rightarrow>
               (if normalizePath os filePath \<noteq> []
                then Some (normalizePath os filePath, changeAmountOf addedStr deletedStr)
                else None)))"

section \<open>The path tree (Node, ensurePath, aggregateCounts)\<close>

text \<open>
  \<open>Children\<close> is a Go map from names to nodes: an association list with distinct
  keys, in the order in which the keys were inserted.
\<close>

datatype Node =
  Node (Name: string) (Path: string) (Value: int) (IsFile: bool) (Children: "(string \<times> Node) list")

definition NewNode :: "string \<Rightarrow> string \<Rightarrow> bool \<Rightarrow> Node" where
  "NewNode name path isFile = Node name path 0 isFile []"

text \<open>
  \<open>ensurePath\<close> walks from a node along the path parts and creates the nodes that are
  missing. The Go method returns a pointer to the last node it reaches; the model
  returns the changed tree and the address of that node: the keys from the node the
  walk started at. \<open>join\<close> stands for \<open>filepath.Join\<close>, which only fills the field
  \<open>Path\<close>; \<open>rest = []\<close> says that the part is the last of the path.
\<close>

fun ensurePath ::
  "(string \<Rightarrow> string \<Rightarrow> string) \<Rightarrow> string \<Rightarrow> Node \<Rightarrow> string list \<Rightarrow> Node \<times> string list" where
  "ensurePath join currentPath n [] = (n, [])"
| "ensurePath join currentPath n (part # rest) =
    (if part = [] then ensurePath join currentPath n rest
     else (case map_of (Children n) part of
             Some child \<Rightarrow>
               (let (child', addr) = ensurePath join (join currentPath part) child rest
                in (Node (Name n) (Path n) (Value n) (IsFile n)
                      (AList.update part child' (Children n)), part # addr))
           | None \<Rightarrow>
               (let (child', addr) =
                      ensurePath join (join currentPath part)
                        (NewNode part (join currentPath part) (rest = [])) rest
                in (Node (Name n) (Path n) (Value n) False
                      (AList.update part child' (Children n)), part # addr))))"

text \<open>The assignment \<open>fileNode.Value = count\<close> through the address of the node.\<close>

fun setValueAt :: "string list \<Rightarrow> int \<Rightarrow> Node \<Rightarrow> Node" where
  "setValueAt [] v n = Node (Name n) (Path n) v (IsFile n) (Children n)"
| "setValueAt (k # ks) v n =
    (case map_of (Children n) k of
       None \<Rightarrow> n
     | Some child \<Rightarrow>
         Node (Name n) (Path n) (Value n) (IsFile n)
           (AList.update k (setValueAt ks v child) (Children n)))"

text \<open>
  \<open>range\<close> over a Go map visits every entry once, in an order that the language leaves
  open and the runtime varies from one loop to the next. The order is a parameter:
  from the keys of the map, the positions of the entries in the order of the visit.
\<close>

type_synonym rangeOrder = "string list \<Rightarrow> nat list"

definition rangeOver :: "rangeOrder \<Rightarrow> (string \<times> 'a) list \<Rightarrow> (string \<times> 'a) list" where
  "rangeOver ord m = map (\<lambda>i. m ! i) (filter (\<lambda>i. i < length m) (ord (map fst m)))"

definition pathPartsOf :: "string \<Rightarrow> string list" where
  "pathPartsOf filePath = map (\<lambda>part. Trim part '' {}'') (Split filePath ''/'')"

text \<open>The body of the loop that builds the tree, and the loop over the visited entries.\<close>

definition insertEntry ::
  "(string \<Rightarrow> string \<Rightarrow> string) \<Rightarrow> Node \<Rightarrow> string \<times> int \<Rightarrow> Node" where
  "insertEntry join rootDir entry =
    (case entry of (filePath, cnt) \<Rightarrow>
       if cnt = 0 then rootDir
       else (case ensurePath join ''/'' rootDir (pathPartsOf filePath) of
               (rootDir', fileNode) \<Rightarrow> setValueAt fileNode cnt rootDir'))"

definition buildTree ::
  "(string \<Rightarrow> string \<Rightarrow> string) \<Rightarrow> string \<Rightarrow> (string \<times> int) list \<Rightarrow> Node" where
  "buildTree join rootDirName entries =
    foldl (insertEntry join) (NewNode rootDirName ''/'' False) entries"

text \<open>
  \<open>aggregateCounts\<close> returns the sum and stores it in the node: the model returns the
  sum and the node after the call. The sum and the stored values do not depend on the
  order in which the children are visited.
\<close>

fun aggregateCounts :: "Node \<Rightarrow> int \<times> Node" where
  "aggregateCounts (Node name path v isFile children) =
    (if isFile then (v, Node name path v isFile children)
     else (let cs = map (\<lambda>(k, child). (k, aggregateCounts child)) children;
               total = foldl (\<lambda>s (k, r, child'). s + r) 0 cs
           in (total, Node name path total isFile (map (\<lambda>(k, r, child'). (k, child')) cs))))"

section \<open>The export (JSONNode, ToJSONNode)\<close>

text \<open>
  \<open>jChildren\<close> is the slice \<open>Children\<close>; the empty list stands for the nil slice and
  for the empty one, which \<open>encoding/json\<close> treats alike under \<open>omitempty\<close>.
\<close>

datatype JSONNode = JSONNode (jName: string) (jValue: int) (jChildren: "JSONNode list")

text \<open>The comparison that \<open>ToJSONNode\<close> hands to \<open>sort.Slice\<close>.\<close>

definition valueGreater :: "JSONNode \<Rightarrow> JSONNode \<Rightarrow> bool" where
  "valueGreater a b = (jValue b < jValue a)"

text \<open>
  \<open>sort.Slice\<close> is a parameter of the model too: the package promises a sorted
  permutation of the slice and no order among equal elements.
\<close>

type_synonym sortSlice = "(JSONNode \<Rightarrow> JSONNode \<Rightarrow> bool) \<Rightarrow> JSONNode list \<Rightarrow> JSONNode list"

function ToJSONNode :: "rangeOrder \<Rightarrow> sortSlice \<Rightarrow> Node \<Rightarrow> JSONNode" where
  "ToJSONNode ord srt (Node name path v isFile children) =
    JSONNode name v
      (if 0 < length children
       then srt valueGreater
              (concat (map (\<lambda>(k, child). if 0 < Value child then [ToJSONNode ord srt child] else [])
                         (rangeOver ord children)))
       else [])"
  by pat_completeness auto
termination
proof (relation "measure (\<lambda>(ord, srt, n). size n)")
  show "wf (measure (\<lambda>(ord :: rangeOrder, srt :: sortSlice, n :: Node). size n))"
    by simp
next
  fix ord :: rangeOrder and srt :: sortSlice and name path :: string and v :: int
    and isFile :: bool and children :: "(string \<times> Node) list" and x k child
  assume "x \<in> set (rangeOver ord children)" and "(k, child) = x"
  then have "(k, child) \<in> set children"
    by (auto simp: rangeOver_def)
  then have "size child < Suc (size_list (size_prod (\<lambda>_. 0) size) children)"
    by (induction children) auto
  then show "((ord, srt, child), (ord, srt, Node name path v isFile children))
      \<in> measure (\<lambda>(ord, srt, n). size n)"
    by simp
qed

text \<open>
  What \<open>json.Encoder\<close> writes for a \<open>JSONNode\<close>, by the tags of its fields: \<open>name\<close>,
  \<open>value\<close>, and \<open>children\<close> unless the slice has length zero (\<open>omitempty\<close>).
\<close>

datatype json = JObject "(string \<times> json) list" | JArray "json list" | JString string | JNumber int

fun encodeJSONNode :: "JSONNode \<Rightarrow> json" where
  "encodeJSONNode (JSONNode name v cs) =
    JObject ([(''name'', JString name), (''value'', JNumber v)] @
             (if cs = [] then [] else [(''children'', JArray (map encodeJSONNode cs))]))"

section \<open>analyzeRepo\<close>

definition rootDirNameOf :: "string \<Rightarrow> string" where
  "rootDirNameOf base = (if base = ''.'' \<or> base = ''/'' then ''repository_root'' else base)"

text \<open>
  The part of \<open>analyzeRepo\<close> from the output of \<open>git log\<close> on; \<open>base\<close> is
  \<open>filepath.Base\<close> of the repository path.
\<close>

definition analyzeOutput ::
  "goos \<Rightarrow> (string \<Rightarrow> string \<Rightarrow> string) \<Rightarrow> rangeOrder \<Rightarrow> string \<Rightarrow> string \<Rightarrow> Node" where
  "analyzeOutput os join ord base output =
    (let st = processLines os initState (scanLines output);
         rootDir = buildTree join (rootDirNameOf base) (rangeOver ord (fileChangeCounts st))
     in snd (aggregateCounts rootDir))"

text \<open>
  The whole of \<open>analyzeRepo\<close>. What the function reads from outside is given: whether
  the directory \<open>.git\<close> exists, and the results of the first run of \<open>git log\<close> and of
  the run after the fetch attempts.
\<close>

datatype cmdResult = CmdOk string | CmdFailed string

datatype analyzeError = NotAGitRepository | GitLogFailed

definition analyzeRepo ::
  "goos \<Rightarrow> (string \<Rightarrow> string \<Rightarrow> string) \<Rightarrow> rangeOrder \<Rightarrow> string \<Rightarrow> bool \<Rightarrow> cmdResult \<Rightarrow> cmdResult
    \<Rightarrow> analyzeError + Node" where
  "analyzeRepo os join ord base gitDirExists firstLog retryLog =
    (if \<not> gitDirExists then Inl NotAGitRepository
     else (case firstLog of
             CmdOk output \<Rightarrow> Inr (analyzeOutput os join ord base output)
           | CmdFailed out1 \<Rightarrow>
               (case retryLog of
                  CmdOk output \<Rightarrow> Inr (analyzeOutput os join ord base output)
                | CmdFailed out2 \<Rightarrow> Inl GitLogFailed)))"

section \<open>Notions used in the statements\<close>

abbreviation TAB :: char where
  "TAB \<equiv> CHR 0x09"

text \<open>All nodes of a tree, the root first.\<close>

fun subnodes :: "Node \<Rightarrow> Node list" where
  "subnodes (Node name path v isFile children) =
    Node name path v isFile children # concat (map (\<lambda>(k, c). subnodes c) children)"

text \<open>The sum of the values of the immediate children of a node.\<close>

definition childSum :: "Node \<Rightarrow> int" where
  "childSum n = sum_list (map (\<lambda>(k, c). Value c) (Children n))"

text \<open>No node is marked as a file and has children.\<close>

fun noFileWithChildren :: "Node \<Rightarrow> bool" where
  "noFileWithChildren (Node name path v isFile children) =
    ((children \<noteq> [] \<longrightarrow> \<not> isFile) \<and> (\<forall>(k, c) \<in> set children. noFileWithChildren c))"


text \<open>
  The sum of the values of the file nodes of a tree, the sum of the values of its
  leaves (the nodes without children), and the sum of the values of all its nodes.
\<close>

fun fileSum :: "Node \<Rightarrow> int" where
  "fileSum (Node name path v isFile children) =
    (if isFile then v else 0) + sum_list (map (\<lambda>(k, c). fileSum c) children)"

fun leafSum :: "Node \<Rightarrow> int" where
  "leafSum (Node name path v isFile children) =
    (if children = [] then v else sum_list (map (\<lambda>(k, c). leafSum c) children))"


text \<open>The node at an address: the keys to follow from the root.\<close>

fun nodeAt :: "string list \<Rightarrow> Node \<Rightarrow> Node option" where
  "nodeAt [] n = Some n"
| "nodeAt (k # ks) n = (case map_of (Children n) k of None \<Rightarrow> None | Some c \<Rightarrow> nodeAt ks c)"

text \<open>
  The address at which the tree builder stores the weight of a path of the map: its
  parts as the builder cleans them, without the empty ones, which the walk passes over.
\<close>

definition pathAddr :: "string \<Rightarrow> string list" where
  "pathAddr filePath = filter (\<lambda>part. part \<noteq> []) (pathPartsOf filePath)"

text \<open>A range order that visits every entry of every map exactly once, as Go's does.\<close>

definition visitsAll :: "rangeOrder \<Rightarrow> bool" where
  "visitsAll ord = (\<forall>ks. mset (ord ks) = mset [0..<length ks])"

definition visitForward :: rangeOrder where
  "visitForward ks = [0..<length ks]"

definition visitBackward :: rangeOrder where
  "visitBackward ks = rev [0..<length ks]"

text \<open>
  What package sort promises of \<open>sort.Slice\<close> with the comparison of \<open>ToJSONNode\<close>:
  the result is a permutation of the slice in which no element is greater than one
  before it.
\<close>

definition sortsSlice :: "sortSlice \<Rightarrow> bool" where
  "sortsSlice srt =
    (\<forall>xs. mset (srt valueGreater xs) = mset xs
        \<and> sorted_wrt (\<lambda>a b. \<not> valueGreater b a) (srt valueGreater xs))"

text \<open>
  The insertion sort that package sort runs on a short slice (of at most 12 elements):
  each element in turn moves left past the elements it is less than.
  \<open>sinkLeft\<close> works on the sorted part in reverse, nearest element first.
\<close>

fun sinkLeft :: "('a \<Rightarrow> 'a \<Rightarrow> bool) \<Rightarrow> 'a \<Rightarrow> 'a list \<Rightarrow> 'a list" where
  "sinkLeft lt x [] = [x]"
| "sinkLeft lt x (y # ys) = (if lt x y then y # sinkLeft lt x ys else x # y # ys)"

definition insertionSortLessFunc :: "('a \<Rightarrow> 'a \<Rightarrow> bool) \<Rightarrow> 'a list \<Rightarrow> 'a list" where
  "insertionSortLessFunc lt xs = rev (foldl (\<lambda>acc x. sinkLeft lt x acc) [] xs)"

text \<open>\<open>filepath.Join\<close> on a clean path and a plain name, where the separator is a slash.\<close>

definition joinSlash :: "string \<Rightarrow> string \<Rightarrow> string" where
  "joinSlash dir name = (if dir = ''/'' then dir @ name else dir @ ''/'' @ name)"

text \<open>All nodes of an export, and the fields of an encoded object.\<close>

fun jsonSubnodes :: "JSONNode \<Rightarrow> JSONNode list" where
  "jsonSubnodes (JSONNode name v cs) = JSONNode name v cs # concat (map jsonSubnodes cs)"

fun jsonFields :: "json \<Rightarrow> (string \<times> json) list" where
  "jsonFields (JObject fs) = fs"
| "jsonFields j = []"

text \<open>
  No two children of a node that the export keeps (those with a positive value) have the
  same value, anywhere in the tree.
\<close>

fun noTies :: "Node \<Rightarrow> bool" where
  "noTies (Node name path v isFile children) =
    (distinct (map Value (filter (\<lambda>c. 0 < Value c) (map snd children)))
     \<and> (\<forall>(k, c) \<in> set children. noTies c))"

text \<open>
  The address leads to a node, and the address leads to a node with a positive value.
\<close>

definition present :: "string list \<Rightarrow> Node \<Rightarrow> bool" where
  "present a t = (nodeAt a t \<noteq> None)"

definition weighted :: "string list \<Rightarrow> Node \<Rightarrow> bool" where
  "weighted a t = (case nodeAt a t of None \<Rightarrow> False | Some m \<Rightarrow> 0 < Value m)"

section \<open>The line parser: accepted lines\<close>

lemma changeAmountOf_one: "changeAmountOf a d = 1"
  by (simp add: changeAmountOf_def)

lemma lineRecord_weight: "lineRecord os line = Some (p, w) \<Longrightarrow> w = 1"
  by (auto simp: lineRecord_def changeAmountOf_one split: if_splits sum.splits prod.splits)

lemma processLine_accepted:
  "lineRecord os line = Some (p, w) \<Longrightarrow>
   fileChangeCounts (processLine os st line) =
     AList.update p (mapGet (fileChangeCounts st) p + w) (fileChangeCounts st)"
  by (auto simp: lineRecord_def processLine_def Let_def split: if_splits sum.splits prod.splits)

lemma processLine_passed:
  "lineRecord os line = None \<Longrightarrow> fileChangeCounts (processLine os st line) = fileChangeCounts st"
  by (auto simp: lineRecord_def processLine_def Let_def split: if_splits sum.splits prod.splits)

lemma mapGet_update: "mapGet (AList.update k v m) k' = (if k' = k then v else mapGet m k')"
  by (simp add: mapGet_def update_conv')

lemma processLines_Cons: "processLines os st (l # ls) = processLines os (processLine os st l) ls"
  by (simp add: processLines_def)

lemma processLines_Nil: "processLines os st [] = st"
  by (simp add: processLines_def)

lemma processLines_append:
  "processLines os st (xs @ ys) = processLines os (processLines os st xs) ys"
  by (simp add: processLines_def)

lemma path_weight_counts_lines:
  "mapGet (fileChangeCounts (processLines os st ls)) q =
   mapGet (fileChangeCounts st) q
     + int (length (filter (\<lambda>l. map_option fst (lineRecord os l) = Some q) ls))"
proof (induction ls arbitrary: st)
  case Nil
  show ?case by (simp add: processLines_Nil)
next
  case (Cons l ls)
  have step: "mapGet (fileChangeCounts (processLine os st l)) q =
      mapGet (fileChangeCounts st) q + (if map_option fst (lineRecord os l) = Some q then 1 else 0)"
  proof (cases "lineRecord os l")
    case None
    then show ?thesis by (simp add: processLine_passed)
  next
    case (Some r)
    obtain p w where r: "r = (p, w)" by (cases r)
    with Some have rec: "lineRecord os l = Some (p, w)" by simp
    have "w = 1" by (rule lineRecord_weight[OF rec])
    then show ?thesis
      by (simp add: processLine_accepted[OF rec] mapGet_update rec)
  qed
  have "mapGet (fileChangeCounts (processLines os (processLine os st l) ls)) q =
      mapGet (fileChangeCounts (processLine os st l)) q
        + int (length (filter (\<lambda>l. map_option fst (lineRecord os l) = Some q) ls))"
    by (rule Cons.IH)
  with step show ?case by (simp add: processLines_Cons)
qed

lemma app_go_example:
  "fileChangeCounts (processLines os initState [''3'' @ [TAB] @ ''1'' @ [TAB] @ ''src/app.go''])
     = [(''src/app.go'', 1)]"
  by (cases os; hypsubst; code_simp)

text \<open>
  C1: every accepted line adds exactly 1 to the weight of its normalized path, whatever
  its added and deleted fields are (the \<open>-\<close> markers of binary files included); the
  line \<open>3 1 src/app.go\<close> with tabs gives the map \<open>{src/app.go: 1}\<close>; and a pass over
  any lines raises the weight of a path by the number of accepted lines that carry it.
\<close>

theorem accepted_line_weight_one:
  "(lineRecord os line = Some (p, w) \<longrightarrow>
      w = 1 \<and> fileChangeCounts (processLine os st line) =
        AList.update p (mapGet (fileChangeCounts st) p + 1) (fileChangeCounts st))
   \<and> fileChangeCounts (processLines os initState [''3'' @ [TAB] @ ''1'' @ [TAB] @ ''src/app.go''])
       = [(''src/app.go'', 1)]
   \<and> mapGet (fileChangeCounts (processLines os st ls)) q
       = mapGet (fileChangeCounts st) q
         + int (length (filter (\<lambda>l. map_option fst (lineRecord os l) = Some q) ls))"
proof (intro conjI impI)
  assume r: "lineRecord os line = Some (p, w)"
  then show "w = 1" by (rule lineRecord_weight)
  with processLine_accepted[OF r, of st]
  show "fileChangeCounts (processLine os st line) =
        AList.update p (mapGet (fileChangeCounts st) p + 1) (fileChangeCounts st)"
    by simp
next
  show "fileChangeCounts (processLines os initState [''3'' @ [TAB] @ ''1'' @ [TAB] @ ''src/app.go''])
       = [(''src/app.go'', 1)]"
    by (rule app_go_example)
next
  show "mapGet (fileChangeCounts (processLines os st ls)) q
       = mapGet (fileChangeCounts st) q
         + int (length (filter (\<lambda>l. map_option fst (lineRecord os l) = Some q) ls))"
    by (rule path_weight_counts_lines)
qed

text \<open>
  A line for a binary file is accepted with the weight 1; and in a pass over two lines
  for \<open>a/b.go\<close>, a malformed line and a line for another file, \<open>a/b.go\<close> gets the
  weight 2.
\<close>

theorem accepted_line_weight_one_witness:
  "lineRecord Linux (''-'' @ [TAB] @ ''-'' @ [TAB] @ ''img/logo.png'') = Some (''img/logo.png'', 1)
   \<and> fileChangeCounts (processLine Linux initState (''-'' @ [TAB] @ ''-'' @ [TAB] @ ''img/logo.png''))
       = [(''img/logo.png'', 1)]
   \<and> mapGet (fileChangeCounts (processLines Linux initState
          [''1 0 a/b.go'', ''garbage'', ''7 7 other.go'', ''2 0 a/b.go''])) ''a/b.go'' = 2"
proof -
  have bin: "lineRecord Linux (''-'' @ [TAB] @ ''-'' @ [TAB] @ ''img/logo.png'') = Some (''img/logo.png'', 1)"
    by code_simp
  note inst = accepted_line_weight_one[where os = Linux and st = initState
      and line = "''-'' @ [TAB] @ ''-'' @ [TAB] @ ''img/logo.png''" and p = "''img/logo.png''" and w = 1
      and ls = "[''1 0 a/b.go'', ''garbage'', ''7 7 other.go'', ''2 0 a/b.go'']" and q = "''a/b.go''"]
  from inst bin
  have "fileChangeCounts (processLine Linux initState (''-'' @ [TAB] @ ''-'' @ [TAB] @ ''img/logo.png''))
      = AList.update ''img/logo.png'' (mapGet (fileChangeCounts initState) ''img/logo.png'' + 1)
          (fileChangeCounts initState)"
    by blast
  then have one: "fileChangeCounts (processLine Linux initState (''-'' @ [TAB] @ ''-'' @ [TAB] @ ''img/logo.png''))
      = [(''img/logo.png'', 1)]"
    by (simp add: initState_def mapGet_def)
  have l1: "(map_option fst (lineRecord Linux ''1 0 a/b.go'') = Some ''a/b.go'') = True" by code_simp
  have l2: "(map_option fst (lineRecord Linux ''garbage'') = Some ''a/b.go'') = False" by code_simp
  have l3: "(map_option fst (lineRecord Linux ''7 7 other.go'') = Some ''a/b.go'') = False" by code_simp
  have l4: "(map_option fst (lineRecord Linux ''2 0 a/b.go'') = Some ''a/b.go'') = True" by code_simp
  have f: "filter (\<lambda>l. map_option fst (lineRecord Linux l) = Some ''a/b.go'')
            [''1 0 a/b.go'', ''garbage'', ''7 7 other.go'', ''2 0 a/b.go'']
      = [''1 0 a/b.go'', ''2 0 a/b.go'']"
    by (simp only: filter.simps l1 l2 l3 l4 if_True if_False)
  from inst
  have "mapGet (fileChangeCounts (processLines Linux initState
          [''1 0 a/b.go'', ''garbage'', ''7 7 other.go'', ''2 0 a/b.go''])) ''a/b.go''
      = mapGet (fileChangeCounts initState) ''a/b.go''
        + int (length (filter (\<lambda>l. map_option fst (lineRecord Linux l) = Some ''a/b.go'')
            [''1 0 a/b.go'', ''garbage'', ''7 7 other.go'', ''2 0 a/b.go'']))"
    by blast
  then have "mapGet (fileChangeCounts (processLines Linux initState
          [''1 0 a/b.go'', ''garbage'', ''7 7 other.go'', ''2 0 a/b.go''])) ''a/b.go''
      = mapGet (fileChangeCounts initState) ''a/b.go'' + int (length [''1 0 a/b.go'', ''2 0 a/b.go''])"
    by (simp only: f)
  then have two: "mapGet (fileChangeCounts (processLines Linux initState
          [''1 0 a/b.go'', ''garbage'', ''7 7 other.go'', ''2 0 a/b.go''])) ''a/b.go'' = 2"
    by (simp add: initState_def mapGet_def)
  from bin one two show ?thesis by blast
qed

section \<open>The line parser: rename lines\<close>

text \<open>
  C2: the rename line \<open>0 0 src/{old.go => new.go}\<close> (with tabs) has five fields, so the
  loop reads it as a normal line: the path is its third field \<open>src/{old.go\<close>, which
  the tree builder stores as \<open>src/old.go\<close>. The map has no entry for \<open>src/new.go\<close>.
\<close>

theorem partial_brace_rename_actual:
  "Fields (''0'' @ [TAB] @ ''0'' @ [TAB] @ ''src/{old.go => new.go}'')
     = [''0'', ''0'', ''src/{old.go'', ''=>'', ''new.go}'']
   \<and> fileChangeCounts
        (processLines Linux initState [''0'' @ [TAB] @ ''0'' @ [TAB] @ ''src/{old.go => new.go}''])
       = [(''src/{old.go'', 1)]
   \<and> pathAddr ''src/{old.go'' = [''src'', ''old.go'']"
  by (intro conjI; code_simp)

text \<open>
  C3: the rename line \<open>1 0 {old/path.go => new/path.go}\<close> (with tabs) has five fields
  as well: the path is its third field \<open>{old/path.go\<close>, normalized to \<open>old/path.go\<close>.
  The map has no entry for \<open>new/path.go\<close>.
\<close>

theorem whole_path_rename_actual:
  "Fields (''1'' @ [TAB] @ ''0'' @ [TAB] @ ''{old/path.go => new/path.go}'')
     = [''1'', ''0'', ''{old/path.go'', ''=>'', ''new/path.go}'']
   \<and> fileChangeCounts
        (processLines Linux initState [''1'' @ [TAB] @ ''0'' @ [TAB] @ ''{old/path.go => new/path.go}''])
       = [(''old/path.go'', 1)]"
  by (intro conjI; code_simp)

section \<open>The line parser: malformed lines\<close>

lemma processLines_counts_cong:
  "fileChangeCounts st = fileChangeCounts st' \<Longrightarrow>
   fileChangeCounts (processLines os st ls) = fileChangeCounts (processLines os st' ls)"
proof (induction ls arbitrary: st st')
  case Nil
  then show ?case by (simp add: processLines_Nil)
next
  case (Cons l ls)
  have "fileChangeCounts (processLine os st l) = fileChangeCounts (processLine os st' l)"
  proof (cases "lineRecord os l")
    case None
    then show ?thesis using Cons.prems by (simp add: processLine_passed)
  next
    case (Some r)
    then show ?thesis using Cons.prems by (cases r) (simp add: processLine_accepted)
  qed
  from Cons.IH[OF this] show ?case by (simp add: processLines_Cons)
qed

lemma malformed_parse:
  "length (Fields line) < 3 \<Longrightarrow> \<not> Contains line ''=>'' \<Longrightarrow> parseLine line = Inl (MalformedLine line)"
  by (simp add: parseLine_def Let_def)

text \<open>
  Against C4 as stated: the line \<open>garbage text no tabs\<close> has four fields, so the loop
  accepts it as a normal line for its third field, without a warning.
\<close>

theorem four_word_line_accepted:
  "parseLine ''garbage text no tabs'' = Inr (''garbage'', ''text'', ''no'')
   \<and> fileChangeCounts (processLines Linux initState [''garbage text no tabs'']) = [(''no'', 1)]
   \<and> logged (processLines Linux initState [''garbage text no tabs'']) = []"
  by (intro conjI; code_simp)

lemma malformed_line_passed_over:
  assumes "line \<noteq> []" and "length (Fields line) < 3" and "\<not> Contains line ''=>''"
  shows "processLine os st line =
           st\<lparr>processedLines := processedLines st + 1, logged := logged st @ [MalformedLine line]\<rparr>"
    and "lineRecord os line = None"
    and "fileChangeCounts (processLines os st (before @ line # after))
           = fileChangeCounts (processLines os st (before @ after))"
proof -
  have p: "parseLine line = Inl (MalformedLine line)"
    using assms by (simp add: malformed_parse)
  show step: "processLine os st line =
           st\<lparr>processedLines := processedLines st + 1, logged := logged st @ [MalformedLine line]\<rparr>"
    for st
    using assms(1) p by (simp add: processLine_def Let_def)
  show "lineRecord os line = None"
    using assms(1) p by (simp add: lineRecord_def)
  have "fileChangeCounts (processLine os (processLines os st before) line)
      = fileChangeCounts (processLines os st before)"
    by (simp add: step)
  then have "fileChangeCounts (processLines os (processLine os (processLines os st before) line) after)
      = fileChangeCounts (processLines os (processLines os st before) after)"
    by (rule processLines_counts_cong)
  then show "fileChangeCounts (processLines os st (before @ line # after))
             = fileChangeCounts (processLines os st (before @ after))"
    by (simp add: processLines_append processLines_Cons)
qed

text \<open>The lines of a text that ends a line, followed by more text.\<close>

lemma rawLines_line:
  "CHR 0x0A \<notin> set a \<Longrightarrow> rawLines cur (a @ CHR 0x0A # s) = (cur @ a) # rawLines [] s"
  by (induction a arbitrary: cur) auto

lemma rawLines_last_line:
  "CHR 0x0A \<notin> set a \<Longrightarrow> cur @ a \<noteq> [] \<Longrightarrow> rawLines cur a = [cur @ a]"
  by (induction a arbitrary: cur) auto

lemma rawLines_whole_lines:
  "pre \<noteq> [] \<Longrightarrow> last pre = CHR 0x0A \<Longrightarrow> rawLines cur (pre @ s) = rawLines cur pre @ rawLines [] s"
proof (induction pre arbitrary: cur)
  case Nil
  then show ?case by simp
next
  case (Cons c cs)
  show ?case
  proof (cases "cs = []")
    case True
    with Cons.prems have "c = CHR 0x0A" by simp
    with True show ?thesis by simp
  next
    case False
    with Cons.prems have l: "last cs = CHR 0x0A" by simp
    show ?thesis
    proof (cases "c = CHR 0x0A")
      case True
      show ?thesis unfolding True by (simp add: Cons.IH[OF False l])
    next
      case c: False
      then show ?thesis by (simp add: Cons.IH[OF False l])
    qed
  qed
qed

lemma rawLines_after_lines:
  "pre = [] \<or> last pre = CHR 0x0A \<Longrightarrow> rawLines [] (pre @ s) = rawLines [] pre @ rawLines [] s"
  by (cases "pre = []") (simp_all add: rawLines_whole_lines)

text \<open>
  The scanner at a line of the output: it delivers the line when the line is shorter
  than its buffer, and stops before a line that is not.
\<close>

lemma scanLines_at_line:
  assumes "pre = [] \<or> last pre = CHR 0x0A" and "CHR 0x0A \<notin> set raw"
    and "length raw < MaxScanTokenSize"
  shows "scanLines (pre @ raw @ CHR 0x0A # post) =
          (if \<forall>l \<in> set (rawLines [] pre). length l < MaxScanTokenSize
           then scanLines pre @ dropCR raw # scanLines post
           else scanLines pre)"
    and "scanLines (pre @ post) =
          (if \<forall>l \<in> set (rawLines [] pre). length l < MaxScanTokenSize
           then scanLines pre @ scanLines post
           else scanLines pre)"
proof -
  have r1: "rawLines [] (pre @ raw @ CHR 0x0A # post) = rawLines [] pre @ raw # rawLines [] post"
    using rawLines_after_lines[OF assms(1), of "raw @ CHR 0x0A # post"]
      rawLines_line[OF assms(2), of "[]" post] by simp
  have r2: "rawLines [] (pre @ post) = rawLines [] pre @ rawLines [] post"
    by (rule rawLines_after_lines[OF assms(1)])
  show "scanLines (pre @ raw @ CHR 0x0A # post) =
          (if \<forall>l \<in> set (rawLines [] pre). length l < MaxScanTokenSize
           then scanLines pre @ dropCR raw # scanLines post
           else scanLines pre)"
  proof (cases "\<forall>l \<in> set (rawLines [] pre). length l < MaxScanTokenSize")
    case True
    then show ?thesis
      using assms(3) by (simp add: scanLines_def r1 takeWhile_append2 takeWhile_eq_all_conv[THEN iffD2])
  next
    case False
    then obtain l where "l \<in> set (rawLines [] pre)" and "\<not> length l < MaxScanTokenSize" by blast
    then have "takeWhile (\<lambda>l. length l < MaxScanTokenSize) (rawLines [] pre @ raw # rawLines [] post)
        = takeWhile (\<lambda>l. length l < MaxScanTokenSize) (rawLines [] pre)"
      by (rule takeWhile_append1)
    with False show ?thesis by (simp only: scanLines_def r1 if_not_P if_False)
  qed
  show "scanLines (pre @ post) =
          (if \<forall>l \<in> set (rawLines [] pre). length l < MaxScanTokenSize
           then scanLines pre @ scanLines post
           else scanLines pre)"
  proof (cases "\<forall>l \<in> set (rawLines [] pre). length l < MaxScanTokenSize")
    case True
    then show ?thesis
      by (simp add: scanLines_def r2 takeWhile_append2 takeWhile_eq_all_conv[THEN iffD2])
  next
    case False
    then obtain l where "l \<in> set (rawLines [] pre)" and "\<not> length l < MaxScanTokenSize" by blast
    then have "takeWhile (\<lambda>l. length l < MaxScanTokenSize) (rawLines [] pre @ rawLines [] post)
        = takeWhile (\<lambda>l. length l < MaxScanTokenSize) (rawLines [] pre)"
      by (rule takeWhile_append1)
    with False show ?thesis by (simp only: scanLines_def r2 if_not_P if_False)
  qed
qed

lemma scanLines_at_last_line:
  assumes "pre = [] \<or> last pre = CHR 0x0A" and "CHR 0x0A \<notin> set raw" and "raw \<noteq> []"
    and "length raw < MaxScanTokenSize"
  shows "scanLines (pre @ raw) =
          (if \<forall>l \<in> set (rawLines [] pre). length l < MaxScanTokenSize
           then scanLines pre @ [dropCR raw]
           else scanLines pre)"
proof -
  have r: "rawLines [] (pre @ raw) = rawLines [] pre @ [raw]"
    using rawLines_after_lines[OF assms(1), of raw] rawLines_last_line[OF assms(2), of "[]"] assms(3)
    by simp
  show ?thesis
  proof (cases "\<forall>l \<in> set (rawLines [] pre). length l < MaxScanTokenSize")
    case True
    then show ?thesis
      using assms(4) by (simp add: scanLines_def r takeWhile_append2 takeWhile_eq_all_conv[THEN iffD2])
  next
    case False
    then obtain l where "l \<in> set (rawLines [] pre)" and "\<not> length l < MaxScanTokenSize" by blast
    then have "takeWhile (\<lambda>l. length l < MaxScanTokenSize) (rawLines [] pre @ [raw])
        = takeWhile (\<lambda>l. length l < MaxScanTokenSize) (rawLines [] pre)"
      by (rule takeWhile_append1)
    with False show ?thesis by (simp only: scanLines_def r if_not_P if_False)
  qed
qed

text \<open>
  A line of \<open>MaxScanTokenSize\<close> bytes or more, of whatever kind, ends the scan: the loop
  sees the lines before it and none after it.
\<close>

lemma scanLines_stops_at_long_line:
  assumes "pre = [] \<or> last pre = CHR 0x0A" and "CHR 0x0A \<notin> set raw"
    and "\<not> length raw < MaxScanTokenSize"
  shows "scanLines (pre @ raw @ CHR 0x0A # post) = scanLines pre"
proof -
  have r1: "rawLines [] (pre @ raw @ CHR 0x0A # post) = rawLines [] pre @ raw # rawLines [] post"
    using rawLines_after_lines[OF assms(1), of "raw @ CHR 0x0A # post"]
      rawLines_line[OF assms(2), of "[]" post] by simp
  have "takeWhile (\<lambda>l. length l < MaxScanTokenSize) (rawLines [] pre @ raw # rawLines [] post)
      = takeWhile (\<lambda>l. length l < MaxScanTokenSize) (rawLines [] pre)"
  proof (cases "\<forall>l \<in> set (rawLines [] pre). length l < MaxScanTokenSize")
    case True
    then show ?thesis
      using assms(3) by (simp add: takeWhile_append2 takeWhile_eq_all_conv[THEN iffD2])
  next
    case False
    then obtain l where "l \<in> set (rawLines [] pre)" and "\<not> length l < MaxScanTokenSize" by blast
    then show ?thesis by (rule takeWhile_append1)
  qed
  then show ?thesis by (simp add: scanLines_def r1)
qed

lemma analyzeOutput_counts_cong:
  "fileChangeCounts (processLines os initState (scanLines out1))
     = fileChangeCounts (processLines os initState (scanLines out2)) \<Longrightarrow>
   analyzeOutput os join ord base out1 = analyzeOutput os join ord base out2"
  by (simp add: analyzeOutput_def Let_def)

text \<open>
  C4, amended: a malformed line that the scanner delivers adds no record and does not
  end the pass. The line stands in the output after whole lines, is shorter than
  \<open>MaxScanTokenSize\<close> bytes and, without its trailing carriage return, is not empty,
  has fewer than three fields and no \<open>=>\<close>. The loop counts it and logs the warning for
  a malformed line; when the scanner reaches it, the scanner delivers it and the lines
  after it; and the map of the pass and the tree of \<open>analyzeRepo\<close> are those of the
  output without the line, whether the line ends with a line feed or ends the output.
\<close>

theorem malformed_line_skipped:
  assumes "dropCR raw = line"
    and "line \<noteq> []" and "length (Fields line) < 3" and "\<not> Contains line ''=>''"
    and "CHR 0x0A \<notin> set raw" and "length raw < MaxScanTokenSize"
    and "pre = [] \<or> last pre = CHR 0x0A"
  shows "processLine os st line =
           st\<lparr>processedLines := processedLines st + 1, logged := logged st @ [MalformedLine line]\<rparr>
         \<and> lineRecord os line = None
         \<and> ((\<forall>l \<in> set (rawLines [] pre). length l < MaxScanTokenSize) \<longrightarrow>
              scanLines (pre @ raw @ [CHR 0x0A] @ post) = scanLines pre @ line # scanLines post)
         \<and> fileChangeCounts (processLines os initState (scanLines (pre @ raw @ [CHR 0x0A] @ post)))
             = fileChangeCounts (processLines os initState (scanLines (pre @ post)))
         \<and> analyzeOutput os join ord base (pre @ raw @ [CHR 0x0A] @ post)
             = analyzeOutput os join ord base (pre @ post)
         \<and> fileChangeCounts (processLines os initState (scanLines (pre @ raw)))
             = fileChangeCounts (processLines os initState (scanLines pre))
         \<and> analyzeOutput os join ord base (pre @ raw) = analyzeOutput os join ord base pre"
proof -
  note P = malformed_line_passed_over[OF assms(2,3,4)]
  note S = scanLines_at_line[OF assms(7,5,6), of post, unfolded assms(1)]
  have raw: "raw \<noteq> []" using assms(1,2) by (auto simp: dropCR_def)
  note L = scanLines_at_last_line[OF assms(7,5) raw assms(6), unfolded assms(1)]
  have reach: "(\<forall>l \<in> set (rawLines [] pre). length l < MaxScanTokenSize) \<longrightarrow>
      scanLines (pre @ raw @ [CHR 0x0A] @ post) = scanLines pre @ line # scanLines post"
    using S(1) by simp
  have c1: "fileChangeCounts (processLines os initState (scanLines (pre @ raw @ [CHR 0x0A] @ post)))
      = fileChangeCounts (processLines os initState (scanLines (pre @ post)))"
  proof (cases "\<forall>l \<in> set (rawLines [] pre). length l < MaxScanTokenSize")
    case True
    with S have "scanLines (pre @ raw @ [CHR 0x0A] @ post) = scanLines pre @ line # scanLines post"
      and "scanLines (pre @ post) = scanLines pre @ scanLines post" by simp_all
    then show ?thesis by (simp only: P(3))
  next
    case False
    with S have "scanLines (pre @ raw @ [CHR 0x0A] @ post) = scanLines pre"
      and "scanLines (pre @ post) = scanLines pre" by simp_all
    then show ?thesis by (simp only:)
  qed
  have c2: "fileChangeCounts (processLines os initState (scanLines (pre @ raw)))
      = fileChangeCounts (processLines os initState (scanLines pre))"
  proof (cases "\<forall>l \<in> set (rawLines [] pre). length l < MaxScanTokenSize")
    case True
    with L have "scanLines (pre @ raw) = scanLines pre @ line # []" by simp
    then show ?thesis
      using P(3)[of os initState "scanLines pre" "[]"] by simp
  next
    case False
    with L show ?thesis by simp
  qed
  from P(1) P(2) reach c1 c2 analyzeOutput_counts_cong[OF c1] analyzeOutput_counts_cong[OF c2]
  show ?thesis by blast
qed

text \<open>
  The hypotheses of C4 hold of the line \<open>garbage text\<close>, here with a carriage return
  before its line feed: between two lines for \<open>a.go\<close> it leaves the weight 2 of that
  path and one warning.
\<close>

theorem malformed_line_skipped_witness:
  "dropCR (''garbage text'' @ [CHR 0x0D]) = ''garbage text''
   \<and> ''garbage text'' \<noteq> [] \<and> length (Fields ''garbage text'') < 3 \<and> \<not> Contains ''garbage text'' ''=>''
   \<and> CHR 0x0A \<notin> set (''garbage text'' @ [CHR 0x0D])
   \<and> length (''garbage text'' @ [CHR 0x0D]) < MaxScanTokenSize
   \<and> last (''1 0 a.go'' @ [CHR 0x0A]) = CHR 0x0A
   \<and> processLine Linux initState ''garbage text''
       = \<lparr>fileChangeCounts = [], processedLines = 1, logged = [MalformedLine ''garbage text'']\<rparr>
   \<and> scanLines ((''1 0 a.go'' @ [CHR 0x0A]) @ (''garbage text'' @ [CHR 0x0D]) @ [CHR 0x0A]
         @ (''1 1 a.go'' @ [CHR 0x0A]))
       = [''1 0 a.go'', ''garbage text'', ''1 1 a.go'']
   \<and> fileChangeCounts (processLines Linux initState
         (scanLines ((''1 0 a.go'' @ [CHR 0x0A]) @ (''garbage text'' @ [CHR 0x0D]) @ [CHR 0x0A]
            @ (''1 1 a.go'' @ [CHR 0x0A]))))
       = [(''a.go'', 2)]"
proof -
  let ?pre = "''1 0 a.go'' @ [CHR 0x0A]"
  let ?raw = "''garbage text'' @ [CHR 0x0D]"
  let ?post = "''1 1 a.go'' @ [CHR 0x0A]"
  have h0: "dropCR ?raw = ''garbage text''" by (simp add: dropCR_def)
  have h1: "''garbage text'' \<noteq> []" by simp
  have h2: "length (Fields ''garbage text'') < 3" by code_simp
  have h3: "\<not> Contains ''garbage text'' ''=>''" by code_simp
  have h4: "CHR 0x0A \<notin> set ?raw" by simp
  have h5: "length ?raw < MaxScanTokenSize" by (simp add: MaxScanTokenSize_def)
  have h6: "last ?pre = CHR 0x0A" by simp
  then have h6': "?pre = [] \<or> last ?pre = CHR 0x0A" by (rule disjI2)
  note m = malformed_line_skipped[OF h0 h1 h2 h3 h4 h5 h6', of Linux initState ?post]
  have s3: "scanLines (?pre @ ?post) = [''1 0 a.go'', ''1 1 a.go'']"
    by (simp add: scanLines_def MaxScanTokenSize_def dropCR_def)
  have e: "fileChangeCounts (processLines Linux initState [''1 0 a.go'', ''1 1 a.go'']) = [(''a.go'', 2)]"
    by code_simp
  from m have p: "processLine Linux initState ''garbage text''
       = \<lparr>fileChangeCounts = [], processedLines = 1, logged = [MalformedLine ''garbage text'']\<rparr>"
    by (simp add: initState_def)
  have sc: "scanLines (?pre @ ?raw @ [CHR 0x0A] @ ?post) = [''1 0 a.go'', ''garbage text'', ''1 1 a.go'']"
    by (simp add: scanLines_def MaxScanTokenSize_def dropCR_def)
  from m have "fileChangeCounts (processLines Linux initState (scanLines (?pre @ ?raw @ [CHR 0x0A] @ ?post)))
      = fileChangeCounts (processLines Linux initState (scanLines (?pre @ ?post)))"
    by blast
  then have c: "fileChangeCounts (processLines Linux initState (scanLines (?pre @ ?raw @ [CHR 0x0A] @ ?post)))
      = [(''a.go'', 2)]"
    by (simp only: s3 e)
  from h0 h1 h2 h3 h4 h5 h6 p sc c show ?thesis by blast
qed

section \<open>Empty input\<close>

lemma processLines_blank:
  "(\<And>l. l \<in> set ls \<Longrightarrow> l = []) \<Longrightarrow> processLines os st ls = st"
  by (induction ls arbitrary: st) (simp_all add: processLines_Nil processLines_Cons processLine_def)

lemma rangeOver_Nil: "rangeOver ord [] = []"
  by (simp add: rangeOver_def)

lemma analyzeOutput_blank:
  assumes "\<forall>l \<in> set (scanLines output). l = []"
  shows "analyzeOutput os join ord base output = Node (rootDirNameOf base) ''/'' 0 False []"
proof -
  have "processLines os initState (scanLines output) = initState"
    using assms by (intro processLines_blank) auto
  then show ?thesis
    by (simp add: analyzeOutput_def initState_def rangeOver_Nil buildTree_def NewNode_def)
qed

text \<open>
  C8: when \<open>git log\<close> succeeds (at once or after the fetch attempts) with an output
  without lines or with blank lines only, \<open>analyzeRepo\<close> returns no error but the root
  node, with value 0 and without children; its export is an object without the field
  \<open>children\<close>.
\<close>

theorem empty_history_root:
  assumes "\<forall>l \<in> set (scanLines output). l = []"
  shows "analyzeRepo os join ord base True (CmdOk output) retryLog
           = Inr (Node (rootDirNameOf base) ''/'' 0 False [])
         \<and> analyzeRepo os join ord base True (CmdFailed out1) (CmdOk output)
           = Inr (Node (rootDirNameOf base) ''/'' 0 False [])
         \<and> encodeJSONNode (ToJSONNode ord' srt (analyzeOutput os join ord base output))
           = JObject [(''name'', JString (rootDirNameOf base)), (''value'', JNumber 0)]"
  using analyzeOutput_blank[OF assms] by (simp add: analyzeRepo_def)

text \<open>The hypothesis of C8 holds of the empty output and of an output of three line ends.\<close>

theorem empty_history_root_witness:
  "scanLines [] = []
   \<and> scanLines [CHR 0x0A, CHR 0x0D, CHR 0x0A, CHR 0x0A] = [[], [], []]
   \<and> analyzeRepo Linux joinSlash visitForward ''repo'' True
        (CmdOk [CHR 0x0A, CHR 0x0D, CHR 0x0A, CHR 0x0A]) (CmdFailed [])
       = Inr (Node ''repo'' ''/'' 0 False [])
   \<and> analyzeRepo Linux joinSlash visitForward ''.'' True (CmdOk []) (CmdFailed [])
       = Inr (Node ''repository_root'' ''/'' 0 False [])"
proof -
  have s0: "scanLines [] = []"
    by (simp add: scanLines_def)
  have s1: "scanLines [CHR 0x0A, CHR 0x0D, CHR 0x0A, CHR 0x0A] = [[], [], []]"
    by (simp add: scanLines_def MaxScanTokenSize_def dropCR_def)
  have b0: "\<forall>l \<in> set (scanLines []). l = []" by (simp add: s0)
  have b1: "\<forall>l \<in> set (scanLines [CHR 0x0A, CHR 0x0D, CHR 0x0A, CHR 0x0A]). l = []" by (simp add: s1)
  have "analyzeRepo Linux joinSlash visitForward ''repo'' True
        (CmdOk [CHR 0x0A, CHR 0x0D, CHR 0x0A, CHR 0x0A]) (CmdFailed [])
       = Inr (Node ''repo'' ''/'' 0 False [])"
    using empty_history_root[OF b1, of Linux joinSlash visitForward "''repo''" "CmdFailed []"]
    by (simp add: rootDirNameOf_def)
  moreover have "analyzeRepo Linux joinSlash visitForward ''.'' True (CmdOk []) (CmdFailed [])
       = Inr (Node ''repository_root'' ''/'' 0 False [])"
    using empty_history_root[OF b0, of Linux joinSlash visitForward "''.''" "CmdFailed []"]
    by (simp add: rootDirNameOf_def)
  ultimately show ?thesis using s0 s1 by blast
qed

section \<open>Association lists\<close>

lemma update_set_cases:
  "(k', c') \<in> set (AList.update k v m) \<Longrightarrow> (k', c') = (k, v) \<or> (k', c') \<in> set m"
  by (induction m) (auto split: if_splits)



section \<open>No file node has children\<close>

lemma noFile_iff_subnodes:
  "noFileWithChildren n \<longleftrightarrow> (\<forall>m \<in> set (subnodes n). Children m \<noteq> [] \<longrightarrow> \<not> IsFile m)"
proof (induction n)
  case (Node name path v isFile children)
  have IH: "noFileWithChildren c \<longleftrightarrow> (\<forall>m \<in> set (subnodes c). Children m \<noteq> [] \<longrightarrow> \<not> IsFile m)"
    if "(k, c) \<in> set children" for k c
    using Node.IH[of "(k, c)" c] that by simp
  have "(\<forall>(k, c) \<in> set children. noFileWithChildren c)
     \<longleftrightarrow> (\<forall>(k, c) \<in> set children. \<forall>m \<in> set (subnodes c). Children m \<noteq> [] \<longrightarrow> \<not> IsFile m)"
    using IH by blast
  then show ?case by (simp add: case_prod_beta)
qed

lemma noFile_child:
  "noFileWithChildren n \<Longrightarrow> map_of (Children n) k = Some c \<Longrightarrow> noFileWithChildren c"
  by (cases n) (auto dest: map_of_SomeD)

lemma noFile_has_child:
  "noFileWithChildren n \<Longrightarrow> map_of (Children n) k = Some c \<Longrightarrow> \<not> IsFile n"
  by (cases n) (auto dest: map_of_SomeD)

lemma noFile_update:
  assumes "noFileWithChildren n" and "noFileWithChildren c'"
  shows "noFileWithChildren (Node a b v False (AList.update k c' (Children n)))"
  using assms by (cases n) (auto dest!: update_set_cases)

lemma ensurePath_noFile:
  "noFileWithChildren n \<Longrightarrow> noFileWithChildren (fst (ensurePath join cp n parts))"
proof (induction parts arbitrary: n cp)
  case Nil
  then show ?case by simp
next
  case (Cons part rest)
  show ?case
  proof (cases "part = []")
    case True
    then show ?thesis using Cons by simp
  next
    case False
    show ?thesis
    proof (cases "map_of (Children n) part")
      case None
      have "noFileWithChildren (NewNode part (join cp part) (rest = []))"
        by (simp add: NewNode_def)
      then have sub: "noFileWithChildren
          (fst (ensurePath join (join cp part) (NewNode part (join cp part) (rest = [])) rest))"
        by (rule Cons.IH)
      have eq: "fst (ensurePath join cp n (part # rest)) =
          Node (Name n) (Path n) (Value n) False
            (AList.update part
               (fst (ensurePath join (join cp part) (NewNode part (join cp part) (rest = [])) rest))
               (Children n))"
        using False None by (simp add: case_prod_beta)
      show ?thesis
        unfolding eq by (rule noFile_update[OF Cons.prems sub])
    next
      case (Some child)
      have sub: "noFileWithChildren (fst (ensurePath join (join cp part) child rest))"
        by (rule Cons.IH[OF noFile_child[OF Cons.prems Some]])
      have "\<not> IsFile n"
        using Cons.prems Some by (rule noFile_has_child)
      then have eq: "fst (ensurePath join cp n (part # rest)) =
          Node (Name n) (Path n) (Value n) False
            (AList.update part (fst (ensurePath join (join cp part) child rest)) (Children n))"
        using False Some by (simp add: case_prod_beta)
      show ?thesis
        unfolding eq by (rule noFile_update[OF Cons.prems sub])
    qed
  qed
qed

lemma setValueAt_noFile:
  "noFileWithChildren n \<Longrightarrow> noFileWithChildren (setValueAt addr v n)"
proof (induction addr arbitrary: n)
  case Nil
  then show ?case by (cases n) simp
next
  case (Cons k ks)
  show ?case
  proof (cases "map_of (Children n) k")
    case None
    then show ?thesis using Cons.prems by simp
  next
    case (Some child)
    have sub: "noFileWithChildren (setValueAt ks v child)"
      by (rule Cons.IH[OF noFile_child[OF Cons.prems Some]])
    have "\<not> IsFile n"
      using Cons.prems Some by (rule noFile_has_child)
    then have eq: "setValueAt (k # ks) v n =
        Node (Name n) (Path n) (Value n) False (AList.update k (setValueAt ks v child) (Children n))"
      using Some by simp
    show ?thesis
      unfolding eq by (rule noFile_update[OF Cons.prems sub])
  qed
qed

lemma insertEntry_noFile:
  "noFileWithChildren t \<Longrightarrow> noFileWithChildren (insertEntry join t e)"
  using ensurePath_noFile[of t join "''/''" "pathPartsOf (fst e)"]
  by (cases "ensurePath join ''/'' t (pathPartsOf (fst e))")
     (auto simp: insertEntry_def setValueAt_noFile split: prod.splits)

lemma foldl_insertEntry_noFile:
  "noFileWithChildren t \<Longrightarrow> noFileWithChildren (foldl (insertEntry join) t entries)"
  by (induction entries arbitrary: t) (simp_all add: insertEntry_noFile)

lemma buildTree_noFile: "noFileWithChildren (buildTree join rootDirName entries)"
  unfolding buildTree_def by (rule foldl_insertEntry_noFile) (simp add: NewNode_def)

lemma ensurePath_new_child_dir:
  assumes "part \<noteq> []" and "map_of (Children n) part = None"
  shows "\<not> IsFile (fst (ensurePath join cp n (part # rest)))"
    and "map_of (Children (fst (ensurePath join cp n (part # rest)))) part \<noteq> None"
  using assms by (simp_all add: case_prod_beta update_conv')

text \<open>
  C9: after any sequence of insertions no node of the tree is marked as a file and has
  children; each call of \<open>ensurePath\<close> keeps that; and a node to which
  \<open>ensurePath\<close> attaches a new child is a directory afterwards, also when it was
  created as a file.
\<close>

theorem no_file_node_with_children:
  "(\<forall>m \<in> set (subnodes (buildTree join rootDirName entries)). Children m \<noteq> [] \<longrightarrow> \<not> IsFile m)
   \<and> ((\<forall>m \<in> set (subnodes n). Children m \<noteq> [] \<longrightarrow> \<not> IsFile m) \<longrightarrow>
        (\<forall>m \<in> set (subnodes (fst (ensurePath join cp n parts))). Children m \<noteq> [] \<longrightarrow> \<not> IsFile m))
   \<and> (part \<noteq> [] \<and> map_of (Children n) part = None \<longrightarrow>
        \<not> IsFile (fst (ensurePath join cp n (part # rest)))
        \<and> map_of (Children (fst (ensurePath join cp n (part # rest)))) part \<noteq> None)"
proof (intro conjI impI)
  show "\<forall>m \<in> set (subnodes (buildTree join rootDirName entries)). Children m \<noteq> [] \<longrightarrow> \<not> IsFile m"
    using buildTree_noFile[of join rootDirName entries] by (simp only: noFile_iff_subnodes)
next
  assume "\<forall>m \<in> set (subnodes n). Children m \<noteq> [] \<longrightarrow> \<not> IsFile m"
  then have "noFileWithChildren n" by (simp only: noFile_iff_subnodes)
  then have "noFileWithChildren (fst (ensurePath join cp n parts))" by (rule ensurePath_noFile)
  then show "\<forall>m \<in> set (subnodes (fst (ensurePath join cp n parts))). Children m \<noteq> [] \<longrightarrow> \<not> IsFile m"
    by (simp only: noFile_iff_subnodes)
next
  assume a: "part \<noteq> [] \<and> map_of (Children n) part = None"
  then show "\<not> IsFile (fst (ensurePath join cp n (part # rest)))"
    by (intro ensurePath_new_child_dir) auto
  from a show "map_of (Children (fst (ensurePath join cp n (part # rest)))) part \<noteq> None"
    by (intro ensurePath_new_child_dir) auto
qed

text \<open>
  The path \<open>a\<close> makes a file node; the path \<open>a/b\<close> then attaches a child to it, and
  the node is a directory.
\<close>

theorem no_file_node_with_children_witness:
  "buildTree joinSlash ''r'' [(''a'', 1)]
     = Node ''r'' ''/'' 0 False [(''a'', Node ''a'' ''/a'' 1 True [])]
   \<and> buildTree joinSlash ''r'' [(''a'', 1), (''a/b'', 1)]
     = Node ''r'' ''/'' 0 False [(''a'', Node ''a'' ''/a'' 1 False [(''b'', Node ''b'' ''/a/b'' 1 True [])])]
   \<and> map_of (Children (Node ''a'' ''/a'' 1 True [])) ''b'' = None
   \<and> \<not> IsFile (fst (ensurePath joinSlash ''/'' (Node ''a'' ''/a'' 1 True []) [''b'']))"
proof -
  have b1: "buildTree joinSlash ''r'' [(''a'', 1)]
     = Node ''r'' ''/'' 0 False [(''a'', Node ''a'' ''/a'' 1 True [])]"
    by code_simp
  have b2: "buildTree joinSlash ''r'' [(''a'', 1), (''a/b'', 1)]
     = Node ''r'' ''/'' 0 False [(''a'', Node ''a'' ''/a'' 1 False [(''b'', Node ''b'' ''/a/b'' 1 True [])])]"
    by code_simp
  have h: "''b'' \<noteq> [] \<and> map_of (Children (Node ''a'' ''/a'' 1 True [])) ''b'' = None"
    by simp
  with no_file_node_with_children[where part = "''b''" and n = "Node ''a'' ''/a'' 1 True []"
      and join = joinSlash and cp = "''/''" and rest = "[]"]
  have "\<not> IsFile (fst (ensurePath joinSlash ''/'' (Node ''a'' ''/a'' 1 True []) [''b'']))"
    by blast
  with b1 b2 h show ?thesis by blast
qed

section \<open>Aggregation\<close>

lemma foldl_add_returns:
  "foldl (\<lambda>s p. s + fst (snd p)) z cs = z + sum_list (map (\<lambda>p. fst (snd p)) cs)"
  for z :: int and cs :: "('k \<times> int \<times> 'c) list"
  by (induction cs arbitrary: z) simp_all

lemma aggregateCounts_file:
  "aggregateCounts (Node name path v True children) = (v, Node name path v True children)"
  by simp

lemma aggregateCounts_dir:
  "aggregateCounts (Node name path v False children) =
    (sum_list (map (\<lambda>(k, c). fst (aggregateCounts c)) children),
     Node name path (sum_list (map (\<lambda>(k, c). fst (aggregateCounts c)) children)) False
       (map (\<lambda>(k, c). (k, snd (aggregateCounts c))) children))"
  by (simp add: Let_def foldl_add_returns case_prod_unfold comp_def)

lemma aggregateCounts_returns_value:
  "fst (aggregateCounts n) = Value (snd (aggregateCounts n))"
proof (cases n)
  case (Node name path v isFile children)
  then show ?thesis
    by (cases isFile) (simp_all only: aggregateCounts_file aggregateCounts_dir fst_conv snd_conv Node.sel)
qed


lemma sum_list_cong_pairs:
  assumes "\<And>k c. (k, c) \<in> set cs \<Longrightarrow> f c = g c"
  shows "sum_list (map (\<lambda>(k, c). f c) cs) = sum_list (map (\<lambda>(k, c). (g c :: int)) cs)"
proof -
  have "map (\<lambda>(k, c). f c) cs = map (\<lambda>(k, c). g c) cs"
    by (rule map_cong[OF refl]) (use assms in auto)
  then show ?thesis by (rule arg_cong)
qed

lemma aggregate_conserved:
  "noFileWithChildren n \<Longrightarrow>
   \<forall>m \<in> set (subnodes (snd (aggregateCounts n))). \<not> IsFile m \<longrightarrow> Value m = childSum m"
proof (induction n)
  case (Node name path v isFile children)
  show ?case
  proof (cases isFile)
    case True
    with Node.prems have "children = []" by auto
    with True show ?thesis by simp
  next
    case False
    then have isF: "isFile = False" by simp
    have kids: "\<forall>m \<in> set (subnodes (snd (aggregateCounts c))). \<not> IsFile m \<longrightarrow> Value m = childSum m"
      if "(k, c) \<in> set children" for k c
      using Node.IH[of "(k, c)" c] Node.prems that by auto
    have root: "childSum (snd (aggregateCounts (Node name path v False children)))
        = sum_list (map (\<lambda>(k, c). fst (aggregateCounts c)) children)"
      by (simp only: aggregateCounts_dir snd_conv childSum_def Node.sel)
         (simp add: comp_def case_prod_unfold aggregateCounts_returns_value)
    have "\<not> IsFile m \<longrightarrow> Value m = childSum m"
      if m: "m \<in> set (subnodes (snd (aggregateCounts (Node name path v False children))))" for m
    proof -
      from m consider "m = snd (aggregateCounts (Node name path v False children))"
        | k c where "(k, c) \<in> set children" and "m \<in> set (subnodes (snd (aggregateCounts c)))"
        by (simp only: aggregateCounts_dir snd_conv subnodes.simps) auto
      then show ?thesis
      proof cases
        case 1
        then show ?thesis
          using root by (simp only: aggregateCounts_dir snd_conv Node.sel) simp
      next
        case 2
        then show ?thesis using kids by blast
      qed
    qed
    then show ?thesis
      unfolding isF by blast
  qed
qed

lemma aggregate_returns_fileSum:
  "noFileWithChildren n \<Longrightarrow> fst (aggregateCounts n) = fileSum n"
proof (induction n)
  case (Node name path v isFile children)
  show ?case
  proof (cases isFile)
    case True
    with Node.prems have "children = []" by auto
    with True show ?thesis by simp
  next
    case False
    then have isF: "isFile = False" by simp
    have "fst (aggregateCounts c) = fileSum c" if "(k, c) \<in> set children" for k c
      using Node.IH[of "(k, c)" c] Node.prems that by auto
    then have "sum_list (map (\<lambda>(k, c). fst (aggregateCounts c)) children)
        = sum_list (map (\<lambda>(k, c). fileSum c) children)"
      by (rule sum_list_cong_pairs)
    then show ?thesis
      unfolding isF by (simp only: aggregateCounts_dir fst_conv fileSum.simps) simp
  qed
qed

lemma aggregate_keeps_fileSum:
  "noFileWithChildren n \<Longrightarrow> fileSum (snd (aggregateCounts n)) = fileSum n"
proof (induction n)
  case (Node name path v isFile children)
  show ?case
  proof (cases isFile)
    case True
    then show ?thesis by simp
  next
    case False
    then have isF: "isFile = False" by simp
    have "fileSum (snd (aggregateCounts c)) = fileSum c" if "(k, c) \<in> set children" for k c
      using Node.IH[of "(k, c)" c] Node.prems that by auto
    then have "sum_list (map (\<lambda>(k, c). fileSum (snd (aggregateCounts c))) children)
        = sum_list (map (\<lambda>(k, c). fileSum c) children)"
      by (rule sum_list_cong_pairs)
    then show ?thesis
      unfolding isF
      by (simp only: aggregateCounts_dir snd_conv fileSum.simps) (simp add: comp_def case_prod_unfold)
  qed
qed

lemma aggregate_leafSum:
  "noFileWithChildren n \<Longrightarrow> leafSum (snd (aggregateCounts n)) = fileSum n"
proof (induction n)
  case (Node name path v isFile children)
  show ?case
  proof (cases isFile)
    case True
    with Node.prems have "children = []" by auto
    with True show ?thesis by simp
  next
    case False
    then have isF: "isFile = False" by simp
    have "leafSum (snd (aggregateCounts c)) = fileSum c" if "(k, c) \<in> set children" for k c
      using Node.IH[of "(k, c)" c] Node.prems that by auto
    then have "sum_list (map (\<lambda>(k, c). leafSum (snd (aggregateCounts c))) children)
        = sum_list (map (\<lambda>(k, c). fileSum c) children)"
      by (rule sum_list_cong_pairs)
    then show ?thesis
      unfolding isF
      by (simp only: aggregateCounts_dir snd_conv leafSum.simps fileSum.simps)
         (simp add: comp_def case_prod_unfold)
  qed
qed

text \<open>
  C5: in the tree that \<open>aggregateCounts\<close> leaves of a built tree, the value of every
  directory node is the sum of the values of its immediate children (0 when it has
  none); the call returns the value of the root, and that value is the sum of the
  values of the file nodes of the tree, which are its leaves with a value and are the
  file values the builder stored.
\<close>

theorem aggregation_conserves:
  "(\<forall>m \<in> set (subnodes (snd (aggregateCounts (buildTree join rootDirName entries)))).
       \<not> IsFile m \<longrightarrow> Value m = childSum m \<and> (Children m = [] \<longrightarrow> Value m = 0))
   \<and> fst (aggregateCounts (buildTree join rootDirName entries))
       = Value (snd (aggregateCounts (buildTree join rootDirName entries)))
   \<and> Value (snd (aggregateCounts (buildTree join rootDirName entries)))
       = fileSum (snd (aggregateCounts (buildTree join rootDirName entries)))
   \<and> Value (snd (aggregateCounts (buildTree join rootDirName entries)))
       = leafSum (snd (aggregateCounts (buildTree join rootDirName entries)))
   \<and> fileSum (snd (aggregateCounts (buildTree join rootDirName entries)))
       = fileSum (buildTree join rootDirName entries)"
proof -
  define t where "t = buildTree join rootDirName entries"
  have wf: "noFileWithChildren t"
    unfolding t_def by (rule buildTree_noFile)
  have c: "\<forall>m \<in> set (subnodes (snd (aggregateCounts t))). \<not> IsFile m \<longrightarrow> Value m = childSum m"
    using wf by (rule aggregate_conserved)
  have c0: "Children m = [] \<longrightarrow> childSum m = 0" for m
    by (simp add: childSum_def)
  have r: "fst (aggregateCounts t) = Value (snd (aggregateCounts t))"
    by (rule aggregateCounts_returns_value)
  have f: "fst (aggregateCounts t) = fileSum t"
    using wf by (rule aggregate_returns_fileSum)
  have k: "fileSum (snd (aggregateCounts t)) = fileSum t"
    using wf by (rule aggregate_keeps_fileSum)
  have l: "leafSum (snd (aggregateCounts t)) = fileSum t"
    using wf by (rule aggregate_leafSum)
  from c c0 r f k l show ?thesis
    unfolding t_def by simp
qed

text \<open>The tree of the paths \<open>dir/a.go\<close>, \<open>dir/sub/b.go\<close> and \<open>other.go\<close>.\<close>

theorem aggregation_conserves_witness:
  "snd (aggregateCounts (buildTree joinSlash ''r''
        [(''dir/a.go'', 1), (''dir/sub/b.go'', 1), (''other.go'', 1)]))
     = Node ''r'' ''/'' 3 False
         [(''dir'', Node ''dir'' ''/dir'' 2 False
             [(''a.go'', Node ''a.go'' ''/dir/a.go'' 1 True []),
              (''sub'', Node ''sub'' ''/dir/sub'' 1 False
                 [(''b.go'', Node ''b.go'' ''/dir/sub/b.go'' 1 True [])])]),
          (''other.go'', Node ''other.go'' ''/other.go'' 1 True [])]
   \<and> fileSum (buildTree joinSlash ''r''
        [(''dir/a.go'', 1), (''dir/sub/b.go'', 1), (''other.go'', 1)]) = 3"
proof -
  let ?es = "[(''dir/a.go'', 1), (''dir/sub/b.go'', 1), (''other.go'', 1 :: int)]"
  have e: "snd (aggregateCounts (buildTree joinSlash ''r'' ?es))
     = Node ''r'' ''/'' 3 False
         [(''dir'', Node ''dir'' ''/dir'' 2 False
             [(''a.go'', Node ''a.go'' ''/dir/a.go'' 1 True []),
              (''sub'', Node ''sub'' ''/dir/sub'' 1 False
                 [(''b.go'', Node ''b.go'' ''/dir/sub/b.go'' 1 True [])])]),
          (''other.go'', Node ''other.go'' ''/other.go'' 1 True [])]"
    by code_simp
  have "Value (snd (aggregateCounts (buildTree joinSlash ''r'' ?es)))
       = fileSum (buildTree joinSlash ''r'' ?es)"
    using aggregation_conserves[of joinSlash "''r''" ?es] by simp
  then have "fileSum (buildTree joinSlash ''r'' ?es) = 3"
    by (simp only: e Node.sel)
  with e show ?thesis by blast
qed

section \<open>The export\<close>

lemma rangeOver_subset: "set (rangeOver ord m) \<subseteq> set m"
  by (auto simp: rangeOver_def)

lemma rangeOver_mset:
  assumes "visitsAll ord"
  shows "mset (rangeOver ord m) = mset m"
proof -
  have o: "mset (ord (map fst m)) = mset [0..<length m]"
    using assms by (simp add: visitsAll_def)
  then have "set (ord (map fst m)) = set [0..<length m]"
    by (rule mset_eq_setD)
  then have "filter (\<lambda>i. i < length m) (ord (map fst m)) = ord (map fst m)"
    by (auto simp: filter_id_conv)
  then have "mset (rangeOver ord m) = image_mset (\<lambda>i. m ! i) (mset (ord (map fst m)))"
    by (simp add: rangeOver_def)
  also have "\<dots> = mset (map (\<lambda>i. m ! i) [0..<length m])"
    by (simp only: o mset_map)
  also have "\<dots> = mset m"
    by (simp only: map_nth)
  finally show ?thesis .
qed

lemma visitForward_visitsAll: "visitsAll visitForward"
  by (simp add: visitsAll_def visitForward_def)

lemma visitBackward_visitsAll: "visitsAll visitBackward"
  by (simp add: visitsAll_def visitBackward_def)

lemma sinkLeft_mset: "mset (sinkLeft lt x ys) = add_mset x (mset ys)"
  by (induction ys) simp_all

lemma sinkLeft_set: "set (sinkLeft lt x ys) = insert x (set ys)"
  by (induction ys) auto

lemma sinkLeft_ascending:
  "sorted_wrt (\<lambda>a b. jValue a \<le> jValue b) ys \<Longrightarrow>
   sorted_wrt (\<lambda>a b. jValue a \<le> jValue b) (sinkLeft valueGreater x ys)"
  by (induction ys) (auto simp: sinkLeft_set valueGreater_def)

lemma foldl_sinkLeft_mset:
  "mset (foldl (\<lambda>acc x. sinkLeft lt x acc) acc xs) = mset acc + mset xs"
  by (induction xs arbitrary: acc) (simp_all add: sinkLeft_mset)

lemma foldl_sinkLeft_ascending:
  "sorted_wrt (\<lambda>a b. jValue a \<le> jValue b) acc \<Longrightarrow>
   sorted_wrt (\<lambda>a b. jValue a \<le> jValue b) (foldl (\<lambda>acc x. sinkLeft valueGreater x acc) acc xs)"
  by (induction xs arbitrary: acc) (simp_all add: sinkLeft_ascending)

lemma insertionSort_sortsSlice: "sortsSlice insertionSortLessFunc"
proof -
  have "sorted_wrt (\<lambda>a b. jValue a \<le> jValue b) (foldl (\<lambda>acc x. sinkLeft valueGreater x acc) [] xs)"
    for xs
    by (rule foldl_sinkLeft_ascending) simp
  then have "sorted_wrt (\<lambda>a b. \<not> valueGreater b a) (insertionSortLessFunc valueGreater xs)" for xs
    by (simp add: insertionSortLessFunc_def sorted_wrt_rev valueGreater_def not_less)
  then show ?thesis
    by (simp add: sortsSlice_def insertionSortLessFunc_def foldl_sinkLeft_mset)
qed

lemma concat_map_if:
  "concat (map (\<lambda>(k, c). if P c then [F c] else []) xs) = map F (filter P (map snd xs))"
  by (induction xs) auto

lemma ToJSONNode_fields:
  "jName (ToJSONNode ord srt n) = Name n" "jValue (ToJSONNode ord srt n) = Value n"
  by (cases n; simp)+

lemma ToJSONNode_children:
  "jChildren (ToJSONNode ord srt n) =
    (if Children n = [] then []
     else srt valueGreater
            (map (ToJSONNode ord srt) (filter (\<lambda>c. 0 < Value c) (map snd (rangeOver ord (Children n))))))"
  by (cases n) (simp add: concat_map_if)

lemma exported_mset:
  assumes "visitsAll ord" and "sortsSlice srt"
  shows "mset (jChildren (ToJSONNode ord srt n)) =
         mset (map (ToJSONNode ord srt) (filter (\<lambda>c. 0 < Value c) (map snd (Children n))))"
proof (cases "Children n = []")
  case True
  then show ?thesis by (simp add: ToJSONNode_children)
next
  case False
  have "mset (jChildren (ToJSONNode ord srt n)) =
      mset (map (ToJSONNode ord srt) (filter (\<lambda>c. 0 < Value c) (map snd (rangeOver ord (Children n)))))"
    using False assms(2) by (simp add: ToJSONNode_children sortsSlice_def)
  also have "\<dots> = image_mset (ToJSONNode ord srt)
      (filter_mset (\<lambda>c. 0 < Value c) (image_mset snd (mset (rangeOver ord (Children n)))))"
    by simp
  also have "\<dots> = image_mset (ToJSONNode ord srt)
      (filter_mset (\<lambda>c. 0 < Value c) (image_mset snd (mset (Children n))))"
    by (simp only: rangeOver_mset[OF assms(1)])
  also have "\<dots> = mset (map (ToJSONNode ord srt) (filter (\<lambda>c. 0 < Value c) (map snd (Children n))))"
    by simp
  finally show ?thesis .
qed

lemma exported_set:
  assumes "visitsAll ord" and "sortsSlice srt"
  shows "set (jChildren (ToJSONNode ord srt n)) =
         ToJSONNode ord srt ` {c \<in> snd ` set (Children n). 0 < Value c}"
proof -
  have "set (jChildren (ToJSONNode ord srt n)) =
      set (map (ToJSONNode ord srt) (filter (\<lambda>c. 0 < Value c) (map snd (Children n))))"
    using exported_mset[OF assms] by (rule mset_eq_setD)
  then show ?thesis by auto
qed

text \<open>
  C6: with a range order that visits every entry once and a \<open>sort.Slice\<close> that keeps
  the elements, the children of an exported node are the exports of exactly those
  children of the node whose value is positive; when no child has a positive value the
  exported node has no children and the encoded object has no field \<open>children\<close>,
  and otherwise the field holds the array of the exported children.
\<close>

theorem export_keeps_positive_children:
  assumes "visitsAll ord" and "sortsSlice srt"
  shows "mset (jChildren (ToJSONNode ord srt n))
           = mset (map (ToJSONNode ord srt) (filter (\<lambda>c. 0 < Value c) (map snd (Children n))))
         \<and> (\<forall>(k, c) \<in> set (Children n).
               (ToJSONNode ord srt c \<in> set (jChildren (ToJSONNode ord srt n))) = (0 < Value c))
         \<and> ((\<forall>(k, c) \<in> set (Children n). \<not> 0 < Value c) \<longrightarrow>
               jChildren (ToJSONNode ord srt n) = []
               \<and> map_of (jsonFields (encodeJSONNode (ToJSONNode ord srt n))) ''children'' = None)
         \<and> ((\<exists>(k, c) \<in> set (Children n). 0 < Value c) \<longrightarrow>
               map_of (jsonFields (encodeJSONNode (ToJSONNode ord srt n))) ''children''
                 = Some (JArray (map encodeJSONNode (jChildren (ToJSONNode ord srt n)))))"
proof (intro conjI)
  note S = exported_set[OF assms, of n]
  show "mset (jChildren (ToJSONNode ord srt n))
           = mset (map (ToJSONNode ord srt) (filter (\<lambda>c. 0 < Value c) (map snd (Children n))))"
    by (rule exported_mset[OF assms])
  show "\<forall>(k, c) \<in> set (Children n).
          (ToJSONNode ord srt c \<in> set (jChildren (ToJSONNode ord srt n))) = (0 < Value c)"
  proof (intro ballI, clarify)
    fix k c
    assume kc: "(k, c) \<in> set (Children n)"
    show "(ToJSONNode ord srt c \<in> set (jChildren (ToJSONNode ord srt n))) = (0 < Value c)"
    proof
      assume "ToJSONNode ord srt c \<in> set (jChildren (ToJSONNode ord srt n))"
      then obtain c' where "0 < Value c'" and "ToJSONNode ord srt c = ToJSONNode ord srt c'"
        unfolding S by auto
      then have "jValue (ToJSONNode ord srt c) = jValue (ToJSONNode ord srt c')" and "0 < Value c'"
        by simp_all
      then show "0 < Value c" by (simp only: ToJSONNode_fields)
    next
      assume "0 < Value c"
      with kc have "c \<in> {c \<in> snd ` set (Children n). 0 < Value c}" by force
      then show "ToJSONNode ord srt c \<in> set (jChildren (ToJSONNode ord srt n))"
        unfolding S by (rule imageI)
    qed
  qed
  have enc: "jsonFields (encodeJSONNode j) =
      [(''name'', JString (jName j)), (''value'', JNumber (jValue j))] @
      (if jChildren j = [] then [] else [(''children'', JArray (map encodeJSONNode (jChildren j)))])"
    for j by (cases j) simp
  show "(\<forall>(k, c) \<in> set (Children n). \<not> 0 < Value c) \<longrightarrow>
          jChildren (ToJSONNode ord srt n) = []
          \<and> map_of (jsonFields (encodeJSONNode (ToJSONNode ord srt n))) ''children'' = None"
  proof
    assume "\<forall>(k, c) \<in> set (Children n). \<not> 0 < Value c"
    then have "{c \<in> snd ` set (Children n). 0 < Value c} = {}" by auto
    then have "set (jChildren (ToJSONNode ord srt n)) = {}" unfolding S by simp
    then have e: "jChildren (ToJSONNode ord srt n) = []" by simp
    then show "jChildren (ToJSONNode ord srt n) = []
          \<and> map_of (jsonFields (encodeJSONNode (ToJSONNode ord srt n))) ''children'' = None"
      by (simp add: enc)
  qed
  show "(\<exists>(k, c) \<in> set (Children n). 0 < Value c) \<longrightarrow>
          map_of (jsonFields (encodeJSONNode (ToJSONNode ord srt n))) ''children''
            = Some (JArray (map encodeJSONNode (jChildren (ToJSONNode ord srt n))))"
  proof
    assume "\<exists>(k, c) \<in> set (Children n). 0 < Value c"
    then have "{c \<in> snd ` set (Children n). 0 < Value c} \<noteq> {}" by force
    then have "set (jChildren (ToJSONNode ord srt n)) \<noteq> {}" unfolding S by simp
    then have "jChildren (ToJSONNode ord srt n) \<noteq> []" by simp
    then show "map_of (jsonFields (encodeJSONNode (ToJSONNode ord srt n))) ''children''
            = Some (JArray (map encodeJSONNode (jChildren (ToJSONNode ord srt n))))"
      by (simp add: enc)
  qed
qed


text \<open>
  The hypotheses of C6 hold of the backward visit and of the insertion sort. The root
  below has the children \<open>dir\<close> (value 1), \<open>gone\<close> (an empty directory, value 0) and
  \<open>other.go\<close> (value 1): the export keeps the first and the last.
\<close>

theorem export_keeps_positive_children_witness:
  "visitsAll visitBackward \<and> sortsSlice insertionSortLessFunc
   \<and> mset (jChildren (ToJSONNode visitBackward insertionSortLessFunc
        (Node ''r'' ''/'' 2 False
          [(''dir'', Node ''dir'' ''/dir'' 1 False [(''a.go'', Node ''a.go'' ''/dir/a.go'' 1 True [])]),
           (''gone'', Node ''gone'' ''/gone'' 0 False []),
           (''other.go'', Node ''other.go'' ''/other.go'' 1 True [])])))
     = mset [JSONNode ''dir'' 1 [JSONNode ''a.go'' 1 []], JSONNode ''other.go'' 1 []]"
proof -
  let ?t = "Node ''r'' ''/'' 2 False
          [(''dir'', Node ''dir'' ''/dir'' 1 False [(''a.go'', Node ''a.go'' ''/dir/a.go'' 1 True [])]),
           (''gone'', Node ''gone'' ''/gone'' 0 False []),
           (''other.go'', Node ''other.go'' ''/other.go'' 1 True [])]"
  have v: "visitsAll visitBackward" by (rule visitBackward_visitsAll)
  have s: "sortsSlice insertionSortLessFunc" by (rule insertionSort_sortsSlice)
  have kept: "map (ToJSONNode visitBackward insertionSortLessFunc)
        (filter (\<lambda>c. 0 < Value c) (map snd (Children ?t)))
      = [JSONNode ''dir'' 1 [JSONNode ''a.go'' 1 []], JSONNode ''other.go'' 1 []]"
    by code_simp
  have "mset (jChildren (ToJSONNode visitBackward insertionSortLessFunc ?t))
      = mset (map (ToJSONNode visitBackward insertionSortLessFunc)
          (filter (\<lambda>c. 0 < Value c) (map snd (Children ?t))))"
    using export_keeps_positive_children[OF v s, of ?t] by (rule conjunct1)
  then have "mset (jChildren (ToJSONNode visitBackward insertionSortLessFunc ?t))
      = mset [JSONNode ''dir'' 1 [JSONNode ''a.go'' 1 []], JSONNode ''other.go'' 1 []]"
    by (simp only: kept)
  with v s show ?thesis by blast
qed

section \<open>The order of the exported children\<close>

text \<open>
  Against C7 as stated: the files \<open>a\<close> and \<open>b\<close>, inserted in this order with the
  weight 1 each, are exported
  as \<open>a, b\<close> when the map of the root is visited forward and as \<open>b, a\<close> when it is
  visited backward: the order of children of equal value is the order of the visit, not
  the order of insertion, and two exports of one tree differ.
\<close>

theorem tie_order_follows_visit:
  "visitsAll visitForward \<and> visitsAll visitBackward \<and> sortsSlice insertionSortLessFunc
   \<and> snd (aggregateCounts (buildTree joinSlash ''r'' [(''a'', 1), (''b'', 1)]))
       = Node ''r'' ''/'' 2 False
           [(''a'', Node ''a'' ''/a'' 1 True []), (''b'', Node ''b'' ''/b'' 1 True [])]
   \<and> ToJSONNode visitForward insertionSortLessFunc
        (Node ''r'' ''/'' 2 False
           [(''a'', Node ''a'' ''/a'' 1 True []), (''b'', Node ''b'' ''/b'' 1 True [])])
       = JSONNode ''r'' 2 [JSONNode ''a'' 1 [], JSONNode ''b'' 1 []]
   \<and> ToJSONNode visitBackward insertionSortLessFunc
        (Node ''r'' ''/'' 2 False
           [(''a'', Node ''a'' ''/a'' 1 True []), (''b'', Node ''b'' ''/b'' 1 True [])])
       = JSONNode ''r'' 2 [JSONNode ''b'' 1 [], JSONNode ''a'' 1 []]"
proof (intro conjI)
  show "visitsAll visitForward" by (rule visitForward_visitsAll)
  show "visitsAll visitBackward" by (rule visitBackward_visitsAll)
  show "sortsSlice insertionSortLessFunc" by (rule insertionSort_sortsSlice)
  show "snd (aggregateCounts (buildTree joinSlash ''r'' [(''a'', 1), (''b'', 1)]))
       = Node ''r'' ''/'' 2 False
           [(''a'', Node ''a'' ''/a'' 1 True []), (''b'', Node ''b'' ''/b'' 1 True [])]"
    by code_simp
  show "ToJSONNode visitForward insertionSortLessFunc
        (Node ''r'' ''/'' 2 False
           [(''a'', Node ''a'' ''/a'' 1 True []), (''b'', Node ''b'' ''/b'' 1 True [])])
       = JSONNode ''r'' 2 [JSONNode ''a'' 1 [], JSONNode ''b'' 1 []]"
    by code_simp
  show "ToJSONNode visitBackward insertionSortLessFunc
        (Node ''r'' ''/'' 2 False
           [(''a'', Node ''a'' ''/a'' 1 True []), (''b'', Node ''b'' ''/b'' 1 True [])])
       = JSONNode ''r'' 2 [JSONNode ''b'' 1 [], JSONNode ''a'' 1 []]"
    by code_simp
qed

lemma exported_subset:
  assumes "sortsSlice srt"
  shows "set (jChildren (ToJSONNode ord srt n)) \<subseteq> ToJSONNode ord srt ` snd ` set (Children n)"
proof (cases "Children n = []")
  case True
  then show ?thesis by (simp add: ToJSONNode_children)
next
  case False
  have "set (srt valueGreater xs) = set xs" for xs
    using assms by (auto simp: sortsSlice_def dest: mset_eq_setD)
  then have "set (jChildren (ToJSONNode ord srt n)) =
      ToJSONNode ord srt ` {c \<in> snd ` set (rangeOver ord (Children n)). 0 < Value c}"
    using False by (auto simp: ToJSONNode_children)
  also have "\<dots> \<subseteq> ToJSONNode ord srt ` snd ` set (Children n)"
    using rangeOver_subset[of ord "Children n"] by blast
  finally show ?thesis .
qed

lemma exported_descending:
  assumes "sortsSlice srt"
  shows "sorted_wrt (\<lambda>a b. jValue b \<le> jValue a) (jChildren (ToJSONNode ord srt n))"
proof (cases "Children n = []")
  case True
  then show ?thesis by (simp add: ToJSONNode_children)
next
  case False
  have "sorted_wrt (\<lambda>a b. \<not> valueGreater b a) (srt valueGreater xs)" for xs
    using assms by (simp add: sortsSlice_def)
  then have "sorted_wrt (\<lambda>a b. jValue b \<le> jValue a) (srt valueGreater xs)" for xs
    by (simp add: valueGreater_def not_less)
  then show ?thesis
    using False by (simp add: ToJSONNode_children)
qed

lemma jsonSubnodes_unfold:
  "jsonSubnodes j = j # concat (map jsonSubnodes (jChildren j))"
  by (cases j) simp

lemma export_all_descending:
  assumes "sortsSlice srt"
  shows "\<forall>j \<in> set (jsonSubnodes (ToJSONNode ord srt n)).
           sorted_wrt (\<lambda>a b. jValue b \<le> jValue a) (jChildren j)"
proof (induction n)
  case (Node name path v isFile children)
  let ?n = "Node name path v isFile children"
  show ?case
  proof
    fix j
    assume "j \<in> set (jsonSubnodes (ToJSONNode ord srt ?n))"
    then consider "j = ToJSONNode ord srt ?n"
      | j' where "j' \<in> set (jChildren (ToJSONNode ord srt ?n))" and "j \<in> set (jsonSubnodes j')"
      by (subst (asm) jsonSubnodes_unfold) auto
    then show "sorted_wrt (\<lambda>a b. jValue b \<le> jValue a) (jChildren j)"
    proof cases
      case 1
      then show ?thesis by (simp only: exported_descending[OF assms])
    next
      case 2
      from 2(1) exported_subset[OF assms, of ord ?n]
      obtain k c where "(k, c) \<in> set children" and "j' = ToJSONNode ord srt c"
        by auto
      with 2(2) Node.IH[of "(k, c)" c] show ?thesis by auto
    qed
  qed
qed

lemma descending_unique:
  assumes "mset xs = mset ys"
    and "sorted_wrt (\<lambda>a b. jValue b \<le> jValue a) xs"
    and "sorted_wrt (\<lambda>a b. jValue b \<le> jValue a) ys"
    and "inj_on jValue (set xs)"
  shows "xs = ys"
proof -
  have sets: "set ys = set xs"
    using assms(1) by (metis mset_eq_setD)
  have "sorted (rev (map jValue xs))" and "sorted (rev (map jValue ys))"
    using assms(2,3) by (simp_all add: sorted_wrt_rev sorted_wrt_map)
  moreover have "mset (rev (map jValue xs)) = mset (rev (map jValue ys))"
    using assms(1) by (simp; metis mset_map)
  ultimately have "rev (map jValue xs) = rev (map jValue ys)"
    by (metis properties_for_sort)
  then have e: "map jValue xs = map jValue ys" by simp
  have i: "inj_on jValue (set xs \<union> set ys)"
    by (simp only: sets Un_absorb assms(4))
  from inj_on_map_eq_map[OF i] e show ?thesis by blast
qed

lemma export_deterministic:
  assumes "visitsAll ord" and "sortsSlice srt" and "visitsAll ord'" and "sortsSlice srt'"
  shows "noTies n \<Longrightarrow> ToJSONNode ord srt n = ToJSONNode ord' srt' n"
proof (induction n)
  case (Node name path v isFile children)
  let ?n = "Node name path v isFile children"
  let ?kept = "filter (\<lambda>c. 0 < Value c) (map snd children)"
  have same: "ToJSONNode ord srt c = ToJSONNode ord' srt' c" if "(k, c) \<in> set children" for k c
    using Node.IH[of "(k, c)" c] Node.prems that by auto
  have maps: "map (ToJSONNode ord' srt') ?kept = map (ToJSONNode ord srt) ?kept"
    using same by (auto simp: map_eq_conv)
  have m1: "mset (jChildren (ToJSONNode ord srt ?n)) = mset (map (ToJSONNode ord srt) ?kept)"
    using exported_mset[OF assms(1,2), of ?n] by simp
  have m2: "mset (jChildren (ToJSONNode ord' srt' ?n)) = mset (map (ToJSONNode ord srt) ?kept)"
    using exported_mset[OF assms(3,4), of ?n] by (simp add: maps)
  have d: "distinct (map Value ?kept)"
    using Node.prems by simp
  have "inj_on jValue (set (map (ToJSONNode ord srt) ?kept))"
  proof (rule inj_onI)
    fix a b
    assume a: "a \<in> set (map (ToJSONNode ord srt) ?kept)"
      and b: "b \<in> set (map (ToJSONNode ord srt) ?kept)" and e: "jValue a = jValue b"
    from a obtain ca where ca: "ca \<in> set ?kept" "a = ToJSONNode ord srt ca" by auto
    from b obtain cb where cb: "cb \<in> set ?kept" "b = ToJSONNode ord srt cb" by auto
    from e ca cb have "Value ca = Value cb" by (simp add: ToJSONNode_fields)
    with d ca(1) cb(1) have "ca = cb"
      by (meson distinct_map inj_onD)
    with ca cb show "a = b" by simp
  qed
  then have inj: "inj_on jValue (set (jChildren (ToJSONNode ord srt ?n)))"
    using m1 by (metis mset_eq_setD)
  have "jChildren (ToJSONNode ord srt ?n) = jChildren (ToJSONNode ord' srt' ?n)"
    using m1 m2 exported_descending[OF assms(2), of ord ?n] exported_descending[OF assms(4), of ord' ?n] inj
    by (intro descending_unique) simp_all
  moreover have "jName (ToJSONNode ord srt ?n) = jName (ToJSONNode ord' srt' ?n)"
    and "jValue (ToJSONNode ord srt ?n) = jValue (ToJSONNode ord' srt' ?n)"
    by (simp_all only: ToJSONNode_fields)
  ultimately show ?case
    by (metis JSONNode.expand)
qed

text \<open>
  C7, amended: with a \<open>sort.Slice\<close> that sorts, the children of every node of an export
  stand in descending order of value; and the export of a tree in which no two exported
  children of a node have the same value is the same for every range order and every
  such sort. (The order of children of equal value is not fixed.)
\<close>

theorem export_children_descending:
  assumes "visitsAll ord" and "sortsSlice srt" and "visitsAll ord'" and "sortsSlice srt'"
  shows "(\<forall>j \<in> set (jsonSubnodes (ToJSONNode ord srt n)).
            sorted_wrt (\<lambda>a b. jValue b \<le> jValue a) (jChildren j))
         \<and> (noTies n \<longrightarrow> ToJSONNode ord srt n = ToJSONNode ord' srt' n)"
  using export_all_descending[OF assms(2)] export_deterministic[OF assms] by blast

text \<open>
  The hypotheses of C7 hold of the two visits and of the insertion sort. The root below
  has the children \<open>other.go\<close> (value 1), inserted first, and \<open>dir\<close> (value 2), and
  the tree has no ties: visited forward or backward, it is exported with \<open>dir\<close> first.
\<close>

theorem export_children_descending_witness:
  "visitsAll visitBackward \<and> visitsAll visitForward \<and> sortsSlice insertionSortLessFunc
   \<and> noTies (Node ''r'' ''/'' 3 False
         [(''other.go'', Node ''other.go'' ''/other.go'' 1 True []),
          (''dir'', Node ''dir'' ''/dir'' 2 False [(''a.go'', Node ''a.go'' ''/dir/a.go'' 2 True [])])])
   \<and> ToJSONNode visitBackward insertionSortLessFunc
        (Node ''r'' ''/'' 3 False
         [(''other.go'', Node ''other.go'' ''/other.go'' 1 True []),
          (''dir'', Node ''dir'' ''/dir'' 2 False [(''a.go'', Node ''a.go'' ''/dir/a.go'' 2 True [])])])
     = JSONNode ''r'' 3 [JSONNode ''dir'' 2 [JSONNode ''a.go'' 2 []], JSONNode ''other.go'' 1 []]
   \<and> sorted_wrt (\<lambda>a b. jValue b \<le> jValue a)
        (jChildren (ToJSONNode visitBackward insertionSortLessFunc
          (Node ''r'' ''/'' 3 False
           [(''other.go'', Node ''other.go'' ''/other.go'' 1 True []),
            (''dir'', Node ''dir'' ''/dir'' 2 False [(''a.go'', Node ''a.go'' ''/dir/a.go'' 2 True [])])])))"
proof -
  let ?t = "Node ''r'' ''/'' 3 False
         [(''other.go'', Node ''other.go'' ''/other.go'' 1 True []),
          (''dir'', Node ''dir'' ''/dir'' 2 False [(''a.go'', Node ''a.go'' ''/dir/a.go'' 2 True [])])]"
  have vb: "visitsAll visitBackward" by (rule visitBackward_visitsAll)
  have vf: "visitsAll visitForward" by (rule visitForward_visitsAll)
  have s: "sortsSlice insertionSortLessFunc" by (rule insertionSort_sortsSlice)
  have nt: "noTies ?t" by simp
  have f: "ToJSONNode visitForward insertionSortLessFunc ?t
      = JSONNode ''r'' 3 [JSONNode ''dir'' 2 [JSONNode ''a.go'' 2 []], JSONNode ''other.go'' 1 []]"
    by code_simp
  note inst = export_children_descending[OF vb s vf s, of ?t]
  from inst nt have "ToJSONNode visitBackward insertionSortLessFunc ?t
      = ToJSONNode visitForward insertionSortLessFunc ?t"
    by blast
  then have b: "ToJSONNode visitBackward insertionSortLessFunc ?t
      = JSONNode ''r'' 3 [JSONNode ''dir'' 2 [JSONNode ''a.go'' 2 []], JSONNode ''other.go'' 1 []]"
    by (simp only: f)
  have "ToJSONNode visitBackward insertionSortLessFunc ?t
      \<in> set (jsonSubnodes (ToJSONNode visitBackward insertionSortLessFunc ?t))"
    by (subst jsonSubnodes_unfold) simp
  with inst have "sorted_wrt (\<lambda>a b. jValue b \<le> jValue a)
        (jChildren (ToJSONNode visitBackward insertionSortLessFunc ?t))"
    by blast
  with vb vf s nt b show ?thesis by blast
qed

section \<open>Weights that the builder stores and the aggregation drops\<close>






lemma ensurePath_Nil: "ensurePath join cp n [] = (n, [])"
  by simp










lemma setValueAt_Nil: "setValueAt [] v n = Node (Name n) (Path n) v (IsFile n) (Children n)"
  by simp







lemma present_weighted: "weighted a t \<Longrightarrow> present a t"
  by (auto simp: weighted_def present_def split: option.splits)
















lemma SplitFrom_slash:
  "SplitFrom ''/'' 0 cur (p @ CHR ''/'' # r) = SplitFrom ''/'' 0 cur p @ SplitFrom ''/'' 0 [] r"
proof (induction p arbitrary: cur)
  case Nil
  show ?case by simp
next
  case (Cons c cs)
  show ?case
  proof (cases "c = CHR ''/''")
    case True
    show ?thesis unfolding True by (simp add: Cons.IH)
  next
    case False
    then show ?thesis by (simp add: Cons.IH)
  qed
qed

lemma pathAddr_slash: "pathAddr (p @ CHR ''/'' # r) = pathAddr p @ pathAddr r"
  by (simp add: pathAddr_def pathPartsOf_def Split_def SplitFrom_slash)

text \<open>
  In particular the parts of a path \<open>p\<close> are a proper prefix of the parts of every path
  \<open>p/r\<close> in which \<open>r\<close> has a part that the builder keeps.
\<close>

lemma slash_extension_proper_prefix:
  "pathAddr r \<noteq> [] \<Longrightarrow> strict_prefix (pathAddr p) (pathAddr (p @ ''/'' @ r))"
  by (auto simp: pathAddr_slash strict_prefix_def)



end
